theory Spec2Isabelle
  imports Complex_Main "HOL-Library.List_Lexorder" "HOL-Library.Sublist" "HOL-Library.AList"
begin

section \<open>JavaScript values used by the catalog code\<close>

text \<open>
  A JavaScript string is a sequence of UTF-16 code units. The relational operators
  on two strings compare them code unit by code unit, a proper prefix being smaller:
  this is the lexicographic order on lists of naturals.
\<close>

type_synonym jsstring = "nat list"

text \<open>
  A JavaScript number that need not be finite: the query parameters \<open>minPrice\<close> and
  \<open>maxPrice\<close>, the result of \<open>Date.prototype.getTime\<close> (\<open>NaN\<close> for a string that is
  not a date) and the quotient in \<open>Math.ceil(total / limit)\<close>.
\<close>

datatype jsnum = Num real | PosInf | NegInf | NaN

fun js_less :: "jsnum \<Rightarrow> jsnum \<Rightarrow> bool" where
  "js_less NaN b = False"
| "js_less a NaN = False"
| "js_less (Num a) (Num b) = (a < b)"
| "js_less (Num a) PosInf = True"
| "js_less (Num a) NegInf = False"
| "js_less PosInf b = False"
| "js_less NegInf NegInf = False"
| "js_less NegInf b = True"

definition js_le :: "jsnum \<Rightarrow> jsnum \<Rightarrow> bool" where
  "js_le a b = (js_less a b \<or> (a = b \<and> a \<noteq> NaN))"

text \<open>Errors that the code throws or that the runtime raises in it.\<close>

datatype jserror =
    Error_product_not_found
  | Error_cannot_load_products
  | TypeError_not_a_function
  | Read_failed
  | Write_failed
  | Backup_failed

text \<open>
  The outcome of a call: a returned value or a thrown exception. For an \<open>async\<close>
  function, \<open>Throws\<close> is the rejection of the promise it returns.
\<close>

datatype 'a outcome = Returns 'a | Throws jserror

section \<open>The product schema (types/database.ts)\<close>

datatype RarityLevel = Normal | Rare | Super_rare | Hidden | Sp

text \<open>
  The type is a union of string literals; these are the strings \<open>normal\<close>, \<open>rare\<close>,
  \<open>super_rare\<close>, \<open>hidden\<close> and \<open>sp\<close>.
\<close>

fun rarityName :: "RarityLevel \<Rightarrow> jsstring" where
  "rarityName Normal = [110, 111, 114, 109, 97, 108]"
| "rarityName Rare = [114, 97, 114, 101]"
| "rarityName Super_rare = [115, 117, 112, 101, 114, 95, 114, 97, 114, 101]"
| "rarityName Hidden = [104, 105, 100, 100, 101, 110]"
| "rarityName Sp = [115, 112]"

datatype ReleaseStatus = Active | Discontinued | Preorder | Limited

record Product =
  productId :: jsstring
  name :: jsstring
  nameEn :: "jsstring option"
  series :: jsstring
  rarityLevel :: RarityLevel
  currentPrice :: real
  originalPrice :: real
  mainColor :: jsstring
  imageUrl :: jsstring
  releaseStatus :: ReleaseStatus
  releaseDate :: jsstring
  appearanceRate :: "jsstring option"
  createdAt :: jsstring
  updatedAt :: jsstring

datatype SortBy = By_name | By_price | By_rarity | By_release_date

datatype SortOrder = Asc | Desc

text \<open>
  Every field of the request is optional; \<open>None\<close> is \<open>undefined\<close>. The field
  \<open>series\<close> of the request is \<open>seriesFilter\<close> here and the field \<open>page\<close> of the
  response is \<open>pageNo\<close>, since a field name can be declared once. Page numbers and page
  sizes are integers; prices are the finite numbers that JSON can hold.
\<close>

record ProductListRequest =
  page :: "int option"
  limit :: "int option"
  search :: "jsstring option"
  rarity :: "RarityLevel list option"
  seriesFilter :: "jsstring list option"
  minPrice :: "jsnum option"
  maxPrice :: "jsnum option"
  sortBy :: "SortBy option"
  sortOrder :: "SortOrder option"

record ProductListResponse =
  products :: "Product list"
  total :: int
  pageNo :: int
  totalPages :: jsnum

record ProductDetailResponse =
  product :: Product
  relatedProducts :: "Product list"

section \<open>Array and string primitives\<close>

text \<open>
  \<open>String.prototype.trim\<close> removes white space and line terminators at both ends, so
  \<open>search.trim()\<close> is truthy exactly when some code unit of \<open>search\<close> is none of them.
\<close>

definition isWhiteSpace :: "nat \<Rightarrow> bool" where
  "isWhiteSpace c =
     (c \<in> {9, 10, 11, 12, 13, 32, 160, 5760, 8232, 8233, 8239, 8287, 12288, 65279}
      \<or> (8192 \<le> c \<and> c \<le> 8202))"

definition trim_truthy :: "jsstring \<Rightarrow> bool" where
  "trim_truthy s = (\<exists>c \<in> set s. \<not> isWhiteSpace c)"

text \<open>\<open>s.includes(t)\<close>: \<open>t\<close> occurs in \<open>s\<close> as a contiguous run.\<close>

fun String_includes :: "jsstring \<Rightarrow> jsstring \<Rightarrow> bool" where
  "String_includes [] t = (t = [])"
| "String_includes (c # s) t = (prefix t (c # s) \<or> String_includes s t)"

text \<open>
  \<open>Array.prototype.slice(start, end)\<close> on integer arguments: a negative index counts
  from the end, both indices are clamped to the array, and an empty range gives the
  empty array.
\<close>

definition Array_slice :: "int \<Rightarrow> int \<Rightarrow> 'a list \<Rightarrow> 'a list" where
  "Array_slice start fin xs =
     (let len = int (length xs);
          k = (if start < 0 then max (len + start) 0 else min start len);
          final = (if fin < 0 then max (len + fin) 0 else min fin len)
      in take (nat (final - k)) (drop (nat k) xs))"

text \<open>
  \<open>Array.prototype.sort(compareFn)\<close>, as V8, the engine of Node.js, carries it out on
  an array of fewer than 64 elements (\<open>ArrayTimSortImpl\<close> with \<open>CountAndMakeRun\<close> and
  \<open>BinaryInsertionSort\<close>): find the run the array starts with, reversing it when it falls
  strictly; then put each further element into the sorted part at the place that a binary
  search gives. The comparator is only ever asked whether its result is negative. An array
  of 64 elements or more V8 cuts into such runs and merges them. For a comparator that
  orders the elements consistently both ways give the same array, the one stable sorted
  arrangement; for a comparator that does not (a \<open>NaN\<close> key), the definition gives
  V8's order of arrays of fewer than 64 elements only.
\<close>

text \<open>
  The number of elements after the second that go on with the run: an element that is not
  below the one before it, in a run that does not fall; an element that is below the one
  before it, in a run that falls.
\<close>

fun countRun :: "('a \<Rightarrow> 'a \<Rightarrow> int) \<Rightarrow> bool \<Rightarrow> 'a \<Rightarrow> 'a list \<Rightarrow> nat" where
  "countRun cmp isDescending previousElement [] = 0"
| "countRun cmp isDescending previousElement (currentElement # rest) =
     (let order = cmp currentElement previousElement
      in if (if isDescending then 0 \<le> order else order < 0) then 0
         else Suc (countRun cmp isDescending currentElement rest))"

text \<open>
  The binary search of \<open>BinaryInsertionSort\<close> in the sorted part \<open>seg\<close>, which is the
  range from \<open>left\<close> to \<open>right\<close>: the middle element is at \<open>(right - left) >> 1\<close>;
  when the pivot is below it the search goes on to its left, else to its right. The result
  is the place of the pivot, counted from \<open>left\<close>.
\<close>

function binarySearch :: "('a \<Rightarrow> 'a \<Rightarrow> int) \<Rightarrow> 'a \<Rightarrow> 'a list \<Rightarrow> nat" where
  "binarySearch cmp pivot seg =
     (if seg = [] then 0
      else let mid = length seg div 2
           in if cmp pivot (seg ! mid) < 0 then binarySearch cmp pivot (take mid seg)
              else mid + 1 + binarySearch cmp pivot (drop (mid + 1) seg))"
  by pat_completeness auto
termination
  by (relation "measure (\<lambda>(cmp, pivot, seg). length seg)") auto

declare binarySearch.simps [simp del]

definition binaryInsert :: "('a \<Rightarrow> 'a \<Rightarrow> int) \<Rightarrow> 'a list \<Rightarrow> 'a \<Rightarrow> 'a list" where
  "binaryInsert cmp done pivot =
     (let left = binarySearch cmp pivot done
      in take left done @ pivot # drop left done)"

definition Array_sort :: "('a \<Rightarrow> 'a \<Rightarrow> int) \<Rightarrow> 'a list \<Rightarrow> 'a list" where
  "Array_sort cmp xs =
     (case xs of
        x0 # x1 # rest \<Rightarrow>
          (let isDescending = (cmp x1 x0 < 0);
               runLength = 2 + countRun cmp isDescending x1 rest;
               run = take runLength xs
           in foldl (binaryInsert cmp) (if isDescending then rev run else run)
                (drop runLength xs))
      | _ \<Rightarrow> xs)"

text \<open>
  \<open>Math.ceil(a / b)\<close> for two integers. Division by zero gives an infinity, or \<open>NaN\<close>
  for \<open>0 / 0\<close>.
\<close>

definition Math_ceil_div :: "int \<Rightarrow> int \<Rightarrow> jsnum" where
  "Math_ceil_div a b =
     (if b = 0 then (if a = 0 then NaN else if 0 < a then PosInf else NegInf)
      else Num (of_int \<lceil>of_int a / (of_int b :: real)\<rceil>))"

section \<open>The query engine (services/productService.ts)\<close>

text \<open>
  Arrays live in a store: an array reference is the index of the array in the list of
  all arrays allocated so far. The module-level constant \<open>productsData\<close> is such a
  reference. \<open>filter\<close>, \<open>slice\<close> and the spread \<open>[...a]\<close> allocate a new array;
  \<open>sort\<close> overwrites the array it is called on.
\<close>

type_synonym arrays = "Product list list"

definition alloc :: "Product list \<Rightarrow> arrays \<Rightarrow> nat \<times> arrays" where
  "alloc xs h = (length h, h @ [xs])"

text \<open>
  The built-ins \<open>String.prototype.toLowerCase\<close> and \<open>new Date(s).getTime()\<close> are
  parameters of the model, \<open>toLowerCase\<close> and \<open>getTime\<close>.
\<close>

definition searchMatches :: "(jsstring \<Rightarrow> jsstring) \<Rightarrow> jsstring \<Rightarrow> Product \<Rightarrow> bool" where
  "searchMatches toLowerCase searchLower p =
     (String_includes (toLowerCase (name p)) searchLower \<or>
      (case nameEn p of
         None \<Rightarrow> False
       | Some e \<Rightarrow> e \<noteq> [] \<and> String_includes (toLowerCase e) searchLower))"

text \<open>The rank table of the comparator: normal < rare < super_rare < hidden < sp.\<close>

fun rarityOrder :: "RarityLevel \<Rightarrow> int" where
  "rarityOrder Normal = 1"
| "rarityOrder Rare = 2"
| "rarityOrder Super_rare = 3"
| "rarityOrder Hidden = 4"
| "rarityOrder Sp = 5"

datatype sortval = NumVal jsnum | StrVal jsstring

text \<open>\<open>aValue < bValue\<close>; both values are numbers or both are strings.\<close>

fun val_less :: "sortval \<Rightarrow> sortval \<Rightarrow> bool" where
  "val_less (NumVal a) (NumVal b) = js_less a b"
| "val_less (StrVal a) (StrVal b) = (a < b)"
| "val_less a b = False"

definition sortValue ::
  "(jsstring \<Rightarrow> jsstring) \<Rightarrow> (jsstring \<Rightarrow> jsnum) \<Rightarrow> SortBy \<Rightarrow> Product \<Rightarrow> sortval" where
  "sortValue toLowerCase getTime sb p =
     (case sb of
        By_price \<Rightarrow> NumVal (Num (currentPrice p))
      | By_rarity \<Rightarrow> NumVal (Num (of_int (rarityOrder (rarityLevel p))))
      | By_release_date \<Rightarrow> NumVal (getTime (releaseDate p))
      | By_name \<Rightarrow> StrVal (toLowerCase (name p)))"

definition compareFn ::
  "(jsstring \<Rightarrow> jsstring) \<Rightarrow> (jsstring \<Rightarrow> jsnum) \<Rightarrow> SortBy \<Rightarrow> SortOrder \<Rightarrow>
   Product \<Rightarrow> Product \<Rightarrow> int" where
  "compareFn toLowerCase getTime sb so a b =
     (let aValue = sortValue toLowerCase getTime sb a;
          bValue = sortValue toLowerCase getTime sb b
      in if val_less aValue bValue then (if so = Asc then - 1 else 1)
         else if val_less bValue aValue then (if so = Asc then 1 else - 1)
         else 0)"

text \<open>
  Lines 51 to 116 of \<open>getProducts\<close>: copy the collection, filter the copy, sort it in
  place. The result is the reference held by \<open>filteredProducts\<close> and the store.
\<close>

definition filterAndSort ::
  "(jsstring \<Rightarrow> jsstring) \<Rightarrow> (jsstring \<Rightarrow> jsnum) \<Rightarrow> nat \<Rightarrow> ProductListRequest \<Rightarrow>
   arrays \<Rightarrow> nat \<times> arrays" where
  "filterAndSort toLowerCase getTime productsData params h =
     (let search' = (case search params of None \<Rightarrow> [] | Some s \<Rightarrow> s);
          rarity' = (case rarity params of None \<Rightarrow> [] | Some r \<Rightarrow> r);
          series' = (case seriesFilter params of None \<Rightarrow> [] | Some s \<Rightarrow> s);
          sortBy' = (case sortBy params of None \<Rightarrow> By_name | Some s \<Rightarrow> s);
          sortOrder' = (case sortOrder params of None \<Rightarrow> Asc | Some s \<Rightarrow> s);
          (fp0, h0) = alloc (h ! productsData) h;
          (fp1, h1) =
            (if trim_truthy search'
             then alloc (filter (searchMatches toLowerCase (toLowerCase search')) (h0 ! fp0)) h0
             else (fp0, h0));
          (fp2, h2) =
            (if rarity' \<noteq> []
             then alloc (filter (\<lambda>p. rarityLevel p \<in> set rarity') (h1 ! fp1)) h1
             else (fp1, h1));
          (fp3, h3) =
            (if series' \<noteq> []
             then alloc (filter (\<lambda>p. series p \<in> set series') (h2 ! fp2)) h2
             else (fp2, h2));
          (fp4, h4) =
            (case minPrice params of
               None \<Rightarrow> (fp3, h3)
             | Some lo \<Rightarrow> alloc (filter (\<lambda>p. js_le lo (Num (currentPrice p))) (h3 ! fp3)) h3);
          (fp5, h5) =
            (case maxPrice params of
               None \<Rightarrow> (fp4, h4)
             | Some hi \<Rightarrow> alloc (filter (\<lambda>p. js_le (Num (currentPrice p)) hi) (h4 ! fp4)) h4)
      in (fp5, h5[fp5 := Array_sort (compareFn toLowerCase getTime sortBy' sortOrder') (h5 ! fp5)]))"

text \<open>
  The whole of \<open>getProducts\<close>: the response and the store it leaves. (The function
  first awaits a timer of 100 ms, which has no other effect.)
\<close>

definition getProducts ::
  "(jsstring \<Rightarrow> jsstring) \<Rightarrow> (jsstring \<Rightarrow> jsnum) \<Rightarrow> nat \<Rightarrow> ProductListRequest \<Rightarrow>
   arrays \<Rightarrow> ProductListResponse \<times> arrays" where
  "getProducts toLowerCase getTime productsData params h =
     (let page' = (case page params of None \<Rightarrow> 1 | Some p \<Rightarrow> p);
          limit' = (case limit params of None \<Rightarrow> 20 | Some l \<Rightarrow> l);
          (filteredProducts, h1) = filterAndSort toLowerCase getTime productsData params h;
          total' = int (length (h1 ! filteredProducts));
          totalPages' = Math_ceil_div total' limit';
          offset = (page' - 1) * limit';
          (paginatedProducts, h2) =
            alloc (Array_slice offset (offset + limit') (h1 ! filteredProducts)) h1
      in (\<lparr>products = h2 ! paginatedProducts, total = total', pageNo = page',
           totalPages = totalPages'\<rparr>, h2))"

text \<open>
  \<open>getProductById\<close> reads the collection only: \<open>find\<close> gives the first record with the
  identifier, and when there is none the function throws.
\<close>

definition getProductById :: "Product list \<Rightarrow> jsstring \<Rightarrow> ProductDetailResponse outcome" where
  "getProductById productsData ident =
     (case find (\<lambda>p. productId p = ident) productsData of
        None \<Rightarrow> Throws Error_product_not_found
      | Some found \<Rightarrow>
          Returns \<lparr>product = found,
                   relatedProducts =
                     Array_slice 0 4
                       (filter (\<lambda>p. series p = series found \<and> productId p \<noteq> ident) productsData)\<rparr>)"

section \<open>The batch mutation engine (data/tools/field-manager.ts)\<close>

text \<open>
  A product file holds JSON. A JSON object is the list of its own properties in the order
  \<open>JSON.stringify\<close> writes them; property names and file names are only ever compared
  for equality and are written as HOL strings.
\<close>

datatype json =
    JNull
  | JBool bool
  | JNum real
  | JStr string
  | JArr "json list"
  | JObj "(string \<times> json) list"

type_synonym jsobject = "(string \<times> json) list"

text \<open>
  The content of a file: an array of objects, which is what the tool takes a product
  file to be (\<open>Product[]\<close>), or other text: text that \<open>JSON.parse\<close> rejects, or a
  JSON value that is not an array, such as the index file \<open>_index.json\<close> that the
  glob pattern \<open>*.json\<close> also matches. Reading or mapping other text throws.
\<close>

datatype content = Records "jsobject list" | Other string

text \<open>
  The two directories the tool works on: the product files by name, and the backup
  directory, which holds one directory of copies per snapshot.
\<close>

record fsys =
  files :: "string \<rightharpoonup> content"
  backups :: "string \<rightharpoonup> (string \<rightharpoonup> content)"

text \<open>
  What the environment does to the file operations of one run. A write that fails
  either leaves the file as it was or leaves some other content behind (a truncated
  file).
\<close>

datatype wfault = Untouched | Clobbered content

record faults =
  mkdir_fails :: bool
  copy_fails :: "string set"
  read_fails :: "string set"
  write_faults :: "string \<rightharpoonup> wfault"

definition no_faults :: faults where
  "no_faults = \<lparr>mkdir_fails = False, copy_fails = {}, read_fails = {}, write_faults = Map.empty\<rparr>"

text \<open>
  What a run prints: the files reported as processed, the files reported as failed,
  and the number of products counted. \<open>processedFiles\<close> is the length of \<open>updated\<close>.
\<close>

record report =
  updated :: "string list"
  failed :: "string list"
  totalProducts :: nat

text \<open>
  \<open>createBackup\<close>: make the snapshot directory named after the time stamp, then copy
  the product files into it one by one. The first copy that fails throws, and the copies
  made so far stay.
\<close>

fun copyFiles ::
  "faults \<Rightarrow> (string \<rightharpoonup> content) \<Rightarrow> string list \<Rightarrow> (string \<rightharpoonup> content) \<Rightarrow>
   bool \<times> (string \<rightharpoonup> content)" where
  "copyFiles F fs [] dir = (True, dir)"
| "copyFiles F fs (p # ps) dir =
     (if p \<in> copy_fails F then (False, dir)
      else case fs p of
             None \<Rightarrow> (False, dir)
           | Some c \<Rightarrow> copyFiles F fs ps (dir(p \<mapsto> c)))"

definition createBackup :: "faults \<Rightarrow> string \<Rightarrow> string list \<Rightarrow> fsys \<Rightarrow> string outcome \<times> fsys" where
  "createBackup F timestamp productFiles s =
     (if mkdir_fails F then (Throws Backup_failed, s)
      else let old = (case backups s timestamp of None \<Rightarrow> Map.empty | Some d \<Rightarrow> d);
               (ok, dir) = copyFiles F (files s) productFiles old
           in (if ok then Returns timestamp else Throws Backup_failed,
               s\<lparr>backups := (backups s)(timestamp \<mapsto> dir)\<rparr>))"

definition readProductFile :: "faults \<Rightarrow> (string \<rightharpoonup> content) \<Rightarrow> string \<Rightarrow> jsobject list outcome" where
  "readProductFile F fs filePath =
     (if filePath \<in> read_fails F then Throws Read_failed
      else case fs filePath of
             None \<Rightarrow> Throws Read_failed
           | Some (Other t) \<Rightarrow> Throws Read_failed
           | Some (Records ps) \<Rightarrow> Returns ps)"

definition writeProductFile ::
  "faults \<Rightarrow> string \<Rightarrow> jsobject list \<Rightarrow> (string \<rightharpoonup> content) \<Rightarrow>
   unit outcome \<times> (string \<rightharpoonup> content)" where
  "writeProductFile F filePath ps fs =
     (case write_faults F filePath of
        None \<Rightarrow> (Returns (), fs(filePath \<mapsto> Records ps))
      | Some Untouched \<Rightarrow> (Throws Write_failed, fs)
      | Some (Clobbered c) \<Rightarrow> (Throws Write_failed, fs(filePath \<mapsto> c)))"

text \<open>
  \<open>product.hasOwnProperty(fieldName)\<close> looks the method up on the object itself first.
  An object read from JSON that has an own property of the name \<open>hasOwnProperty\<close>
  holds a JSON value there, which is not a function, and the call throws a TypeError.
\<close>

definition hasOwnProperty :: "jsobject \<Rightarrow> string \<Rightarrow> bool outcome" where
  "hasOwnProperty obj fieldName =
     (if map_of obj ''hasOwnProperty'' \<noteq> None then Throws TypeError_not_a_function
      else Returns (map_of obj fieldName \<noteq> None))"

text \<open>
  The object each operation builds from one product. \<open>{...product, [k]: v}\<close> is
  \<open>AList.update k v product\<close>: an existing property keeps its place, a new one
  goes to the end. The rest pattern \<open>{[k]: x, ...rest}\<close> is \<open>AList.delete k product\<close>.
\<close>

definition addField_product :: "string \<Rightarrow> json \<Rightarrow> jsobject \<Rightarrow> jsobject outcome" where
  "addField_product fieldName defaultValue obj =
     (case hasOwnProperty obj fieldName of
        Throws e \<Rightarrow> Throws e
      | Returns has \<Rightarrow>
          Returns (AList.update fieldName
                     (if has then the (map_of obj fieldName) else defaultValue) obj))"

definition renameField_product :: "string \<Rightarrow> string \<Rightarrow> jsobject \<Rightarrow> jsobject outcome" where
  "renameField_product oldFieldName newFieldName obj =
     (case hasOwnProperty obj oldFieldName of
        Throws e \<Rightarrow> Throws e
      | Returns has \<Rightarrow>
          Returns (if has
                   then AList.update newFieldName (the (map_of obj oldFieldName))
                          (AList.delete oldFieldName obj)
                   else obj))"

text \<open>
  The updater gets the current value (\<open>None\<close> is \<open>undefined\<close>) and the product. It may
  throw. When it returns \<open>undefined\<close>, \<open>JSON.stringify\<close> leaves the property out of
  the file.
\<close>

definition updateField_product ::
  "string \<Rightarrow> (json option \<Rightarrow> jsobject \<Rightarrow> json option outcome) \<Rightarrow> jsobject \<Rightarrow> jsobject outcome" where
  "updateField_product fieldName updater obj =
     (case updater (map_of obj fieldName) obj of
        Throws e \<Rightarrow> Throws e
      | Returns None \<Rightarrow> Returns (AList.delete fieldName obj)
      | Returns (Some v) \<Rightarrow> Returns (AList.update fieldName v obj))"

definition removeField_product :: "string \<Rightarrow> jsobject \<Rightarrow> jsobject outcome" where
  "removeField_product fieldName obj = Returns (AList.delete fieldName obj)"

text \<open>\<open>products.map(f)\<close> where \<open>f\<close> may throw: the first exception ends the map.\<close>

fun mapProducts :: "(jsobject \<Rightarrow> jsobject outcome) \<Rightarrow> jsobject list \<Rightarrow> jsobject list outcome" where
  "mapProducts f [] = Returns []"
| "mapProducts f (p # ps) =
     (case f p of
        Throws e \<Rightarrow> Throws e
      | Returns q \<Rightarrow>
          (case mapProducts f ps of
             Throws e \<Rightarrow> Throws e
           | Returns qs \<Rightarrow> Returns (q # qs)))"

text \<open>
  The body of the \<open>forEach\<close> callback, which the four operations share word for word
  but for the function mapped over the products: read, map, write and count inside
  \<open>try\<close>; the \<open>catch\<close> prints the failure and the loop goes on with the next file.
\<close>

definition processFile ::
  "faults \<Rightarrow> (jsobject \<Rightarrow> jsobject outcome) \<Rightarrow> string \<Rightarrow>
   (string \<rightharpoonup> content) \<times> report \<Rightarrow> (string \<rightharpoonup> content) \<times> report" where
  "processFile F f filePath st =
     (case st of (fs, rep) \<Rightarrow>
        (case readProductFile F fs filePath of
           Throws e \<Rightarrow> (fs, rep\<lparr>failed := failed rep @ [filePath]\<rparr>)
         | Returns ps \<Rightarrow>
             (case mapProducts f ps of
                Throws e \<Rightarrow> (fs, rep\<lparr>failed := failed rep @ [filePath]\<rparr>)
              | Returns updatedProducts \<Rightarrow>
                  (case writeProductFile F filePath updatedProducts fs of
                     (Throws e, fs') \<Rightarrow> (fs', rep\<lparr>failed := failed rep @ [filePath]\<rparr>)
                   | (Returns u, fs') \<Rightarrow>
                       (fs', rep\<lparr>updated := updated rep @ [filePath],
                                 totalProducts := totalProducts rep + length ps\<rparr>)))))"

fun forEachFile ::
  "faults \<Rightarrow> (jsobject \<Rightarrow> jsobject outcome) \<Rightarrow> string list \<Rightarrow>
   (string \<rightharpoonup> content) \<times> report \<Rightarrow> (string \<rightharpoonup> content) \<times> report" where
  "forEachFile F f [] st = st"
| "forEachFile F f (filePath # rest) st = forEachFile F f rest (processFile F f filePath st)"

text \<open>
  The shape of every operation: \<open>createBackup\<close> outside any \<open>try\<close>, so that its
  exception leaves the operation, then the loop over \<open>this.productFiles\<close>. The time
  stamp that names the snapshot and the list \<open>this.productFiles\<close>, which the
  constructor takes from a glob over the product directory, are parameters.
\<close>

definition mutateAll ::
  "faults \<Rightarrow> string \<Rightarrow> string list \<Rightarrow> (jsobject \<Rightarrow> jsobject outcome) \<Rightarrow> fsys \<Rightarrow>
   report outcome \<times> fsys" where
  "mutateAll F timestamp productFiles f s =
     (case createBackup F timestamp productFiles s of
        (Throws e, s') \<Rightarrow> (Throws e, s')
      | (Returns backupPath, s') \<Rightarrow>
          (case forEachFile F f productFiles
                  (files s', \<lparr>updated = [], failed = [], totalProducts = 0\<rparr>) of
             (fs, rep) \<Rightarrow> (Returns rep, s'\<lparr>files := fs\<rparr>)))"

definition addField ::
  "faults \<Rightarrow> string \<Rightarrow> string list \<Rightarrow> string \<Rightarrow> json \<Rightarrow> fsys \<Rightarrow> report outcome \<times> fsys" where
  "addField F timestamp productFiles fieldName defaultValue =
     mutateAll F timestamp productFiles (addField_product fieldName defaultValue)"

definition renameField ::
  "faults \<Rightarrow> string \<Rightarrow> string list \<Rightarrow> string \<Rightarrow> string \<Rightarrow> fsys \<Rightarrow> report outcome \<times> fsys" where
  "renameField F timestamp productFiles oldFieldName newFieldName =
     mutateAll F timestamp productFiles (renameField_product oldFieldName newFieldName)"

definition updateField ::
  "faults \<Rightarrow> string \<Rightarrow> string list \<Rightarrow> string \<Rightarrow>
   (json option \<Rightarrow> jsobject \<Rightarrow> json option outcome) \<Rightarrow> fsys \<Rightarrow> report outcome \<times> fsys" where
  "updateField F timestamp productFiles fieldName updater =
     mutateAll F timestamp productFiles (updateField_product fieldName updater)"

definition removeField ::
  "faults \<Rightarrow> string \<Rightarrow> string list \<Rightarrow> string \<Rightarrow> fsys \<Rightarrow> report outcome \<times> fsys" where
  "removeField F timestamp productFiles fieldName =
     mutateAll F timestamp productFiles (removeField_product fieldName)"

section \<open>The catalog loader (product-loader)\<close>

text \<open>
  The index file \<open>_index.json\<close> lists the series; each entry names the file of
  one series. (The source calls the list \<open>index.series\<close> and the entry's key
  \<open>seriesInfo.key\<close>.)
\<close>

record seriesInfo =
  seriesKey :: string
  fileName :: string

record seriesIndex =
  seriesList :: "seriesInfo list"
  totalSeries :: nat

text \<open>
  \<open>performLoad\<close>. The index module is \<open>None\<close> when importing it fails; the outer
  \<open>catch\<close> then throws. \<open>modules\<close> gives the default export of the module of a
  file name, and \<open>None\<close> when that import rejects (no such file, or text that is not
  JSON); the inner \<open>catch\<close> then warns with the key of the series and yields the empty
  array. The results are flattened in the order of the index. The second component is
  the list of warnings, given in index order (the imports run in parallel, and the order
  in which they settle is not modelled).
\<close>

definition performLoad ::
  "seriesIndex option \<Rightarrow> (string \<rightharpoonup> jsobject list) \<Rightarrow> jsobject list outcome \<times> string list" where
  "performLoad indexModule modules =
     (case indexModule of
        None \<Rightarrow> (Throws Error_cannot_load_products, [])
      | Some index \<Rightarrow>
          (let seriesResults =
                 map (\<lambda>seriesInfo. case modules (fileName seriesInfo) of
                                      Some ps \<Rightarrow> ps
                                    | None \<Rightarrow> [])
                   (seriesList index);
               warnings =
                 map seriesKey
                   (filter (\<lambda>seriesInfo. modules (fileName seriesInfo) = None) (seriesList index))
           in (Returns (concat seriesResults), warnings)))"

text \<open>
  \<open>loadAllProducts\<close> is an \<open>async\<close> function: a call runs up to the \<open>await\<close> in
  one piece, and its continuation runs in another piece once the awaited promise has
  settled. Between the pieces other calls may run. The state holds the two static fields
  of the class, the promises that \<open>performLoad\<close> has returned so far (one per
  invocation of \<open>performLoad\<close>, so the length of the list counts the invocations), the
  callers suspended at the \<open>await\<close> with the promise they wait for, and what each
  finished call has returned: a value, the promise held in \<open>loadPromise\<close>, or an
  exception.
\<close>

datatype 'a promise = Pending | Fulfilled 'a | Rejected jserror

datatype answer = Value "jsobject list" | Adopts nat | Fails jserror

record loader =
  allProducts :: "jsobject list option"
  loadPromise :: "nat option"
  promises :: "jsobject list promise list"
  awaiting :: "(nat \<times> nat) list"
  answers :: "(nat \<times> answer) list"

definition initialLoader :: loader where
  "initialLoader = \<lparr>allProducts = None, loadPromise = None, promises = [], awaiting = [], answers = []\<rparr>"

text \<open>
  A call up to its first suspension point: return the cached array; or return the
  promise in flight; or start \<open>performLoad\<close>, store its promise and wait for it.
\<close>

definition loadAllProducts_call :: "nat \<Rightarrow> loader \<Rightarrow> loader" where
  "loadAllProducts_call caller st =
     (case allProducts st of
        Some ps \<Rightarrow> st\<lparr>answers := answers st @ [(caller, Value ps)]\<rparr>
      | None \<Rightarrow>
          (case loadPromise st of
             Some p \<Rightarrow> st\<lparr>answers := answers st @ [(caller, Adopts p)]\<rparr>
           | None \<Rightarrow>
               st\<lparr>promises := promises st @ [Pending],
                  loadPromise := Some (length (promises st)),
                  awaiting := awaiting st @ [(caller, length (promises st))]\<rparr>))"

text \<open>
  The promise of an invocation of \<open>performLoad\<close> settles with the outcome of that
  invocation.
\<close>

definition settle :: "nat \<Rightarrow> jsobject list outcome \<Rightarrow> loader \<Rightarrow> loader" where
  "settle p r st =
     (if p < length (promises st) \<and> promises st ! p = Pending
      then st\<lparr>promises := (promises st)[p := (case r of Returns ps \<Rightarrow> Fulfilled ps | Throws e \<Rightarrow> Rejected e)]\<rparr>
      else st)"

text \<open>
  The continuation of the call that started the load, after the \<open>await\<close>: store and
  return the array, or let the exception pass; the \<open>finally\<close> block clears
  \<open>loadPromise\<close> in both cases.
\<close>

definition loadAllProducts_resume :: "nat \<Rightarrow> loader \<Rightarrow> loader" where
  "loadAllProducts_resume caller st =
     (case map_of (awaiting st) caller of
        None \<Rightarrow> st
      | Some p \<Rightarrow>
          (case promises st ! p of
             Pending \<Rightarrow> st
           | Fulfilled ps \<Rightarrow>
               st\<lparr>allProducts := Some ps,
                  answers := answers st @ [(caller, Value ps)],
                  loadPromise := None,
                  awaiting := filter (\<lambda>w. fst w \<noteq> caller) (awaiting st)\<rparr>
           | Rejected e \<Rightarrow>
               st\<lparr>answers := answers st @ [(caller, Fails e)],
                  loadPromise := None,
                  awaiting := filter (\<lambda>w. fst w \<noteq> caller) (awaiting st)\<rparr>))"

definition resetCache :: "loader \<Rightarrow> loader" where
  "resetCache st = st\<lparr>allProducts := None, loadPromise := None\<rparr>"

text \<open>
  A run of the loader is a sequence of such pieces.
\<close>

datatype event = Call nat | Settle nat "jsobject list outcome" | Resume nat | Reset

fun loaderStep :: "event \<Rightarrow> loader \<Rightarrow> loader" where
  "loaderStep (Call c) st = loadAllProducts_call c st"
| "loaderStep (Settle p r) st = settle p r st"
| "loaderStep (Resume c) st = loadAllProducts_resume c st"
| "loaderStep Reset st = resetCache st"

fun runEvents :: "event list \<Rightarrow> loader \<Rightarrow> loader" where
  "runEvents [] st = st"
| "runEvents (e # es) st = runEvents es (loaderStep e st)"

text \<open>
  What the promise returned to a caller has resolved to, if it has: a returned promise
  passes on the state of the promise it adopts.
\<close>

definition received :: "loader \<Rightarrow> nat \<Rightarrow> jsobject list outcome option" where
  "received st caller =
     (case map_of (answers st) caller of
        None \<Rightarrow> None
      | Some (Value ps) \<Rightarrow> Some (Returns ps)
      | Some (Fails e) \<Rightarrow> Some (Throws e)
      | Some (Adopts p) \<Rightarrow>
          (case promises st ! p of
             Pending \<Rightarrow> None
           | Fulfilled ps \<Rightarrow> Some (Returns ps)
           | Rejected e \<Rightarrow> Some (Throws e)))"

section \<open>Notions used to state the properties\<close>

text \<open>
  The conjunction of the filters that lines 53 to 86 of \<open>getProducts\<close> apply, and the
  comparator that line 89 passes to \<open>sort\<close>, both with the defaults of the request
  filled in.
\<close>

definition matches :: "(jsstring \<Rightarrow> jsstring) \<Rightarrow> ProductListRequest \<Rightarrow> Product \<Rightarrow> bool" where
  "matches toLowerCase params p =
     (let search' = (case search params of None \<Rightarrow> [] | Some s \<Rightarrow> s);
          rarity' = (case rarity params of None \<Rightarrow> [] | Some r \<Rightarrow> r);
          series' = (case seriesFilter params of None \<Rightarrow> [] | Some s \<Rightarrow> s)
      in (if trim_truthy search' then searchMatches toLowerCase (toLowerCase search') p else True)
       \<and> (if rarity' \<noteq> [] then rarityLevel p \<in> set rarity' else True)
       \<and> (if series' \<noteq> [] then series p \<in> set series' else True)
       \<and> (case minPrice params of None \<Rightarrow> True | Some lo \<Rightarrow> js_le lo (Num (currentPrice p)))
       \<and> (case maxPrice params of None \<Rightarrow> True | Some hi \<Rightarrow> js_le (Num (currentPrice p)) hi))"

definition comparator :: "(jsstring \<Rightarrow> jsstring) \<Rightarrow> (jsstring \<Rightarrow> jsnum) \<Rightarrow> ProductListRequest \<Rightarrow> Product \<Rightarrow> Product \<Rightarrow> int" where
  "comparator toLowerCase getTime params =
     compareFn toLowerCase getTime
       (case sortBy params of None \<Rightarrow> By_name | Some s \<Rightarrow> s)
       (case sortOrder params of None \<Rightarrow> Asc | Some s \<Rightarrow> s)"

text \<open>
  The ordinal rank of a rarity: its place in the enumeration normal, rare, super_rare,
  hidden, sp of the type \<open>RarityLevel\<close>.
\<close>

definition rarityEnumeration :: "RarityLevel list" where
  "rarityEnumeration = [Normal, Rare, Super_rare, Hidden, Sp]"

definition enumerationRank :: "RarityLevel \<Rightarrow> nat" where
  "enumerationRank r = length (takeWhile (\<lambda>x. x \<noteq> r) rarityEnumeration)"

text \<open>
  A linear order turned round, for the keys of a descending sort.
\<close>

datatype 'a down = Down 'a

instantiation down :: (linorder) linorder
begin

definition less_eq_down :: "'a down \<Rightarrow> 'a down \<Rightarrow> bool" where
  "less_eq_down x y = (case x of Down a \<Rightarrow> (case y of Down b \<Rightarrow> b \<le> a))"

definition less_down :: "'a down \<Rightarrow> 'a down \<Rightarrow> bool" where
  "less_down x y = (case x of Down a \<Rightarrow> (case y of Down b \<Rightarrow> b < a))"

instance
  by standard (auto simp add: less_eq_down_def less_down_def split: down.splits)

end

text \<open>
  The array that \<open>filteredProducts\<close> refers to after the sort in line 116.
\<close>

definition sortedArray ::
  "(jsstring \<Rightarrow> jsstring) \<Rightarrow> (jsstring \<Rightarrow> jsnum) \<Rightarrow> nat \<Rightarrow> ProductListRequest \<Rightarrow>
   arrays \<Rightarrow> Product list" where
  "sortedArray toLowerCase getTime productsData params h =
     (case filterAndSort toLowerCase getTime productsData params h of (fp, h') \<Rightarrow> h' ! fp)"

text \<open>
  The invariant of the filter chain started from the store \<open>h\<close>: the reference is to
  an array allocated after \<open>h\<close>, that array is \<open>xs\<close>, and the arrays of \<open>h\<close> are as
  they were.
\<close>

definition holds :: "arrays \<Rightarrow> nat \<times> arrays \<Rightarrow> Product list \<Rightarrow> bool" where
  "holds h r xs = (case r of (fp, hh) \<Rightarrow>
      length h \<le> fp \<and> fp < length hh \<and> hh ! fp = xs \<and> take (length h) hh = h)"

text \<open>
  What the \<open>forEach\<close> callback leaves in the file it is called on, given what the file
  held.
\<close>

definition shardResult ::
  "faults \<Rightarrow> (jsobject \<Rightarrow> jsobject outcome) \<Rightarrow> string \<Rightarrow> content option \<Rightarrow> content option" where
  "shardResult F f p c =
     (if p \<in> read_fails F then c
      else case c of
             Some (Records ps) \<Rightarrow>
               (case mapProducts f ps of
                  Throws e \<Rightarrow> c
                | Returns qs \<Rightarrow>
                    (case write_faults F p of
                       None \<Rightarrow> Some (Records qs)
                     | Some Untouched \<Rightarrow> c
                     | Some (Clobbered c') \<Rightarrow> Some c'))
           | Some (Other t) \<Rightarrow> c
           | None \<Rightarrow> c)"

text \<open>
  The callback gets through reading, mapping and writing the file, and reports it as
  processed.
\<close>

definition succeeds ::
  "faults \<Rightarrow> (jsobject \<Rightarrow> jsobject outcome) \<Rightarrow> string \<Rightarrow> content option \<Rightarrow> bool" where
  "succeeds F f p c =
     (p \<notin> read_fails F \<and> write_faults F p = None \<and>
      (case c of
         Some (Records ps) \<Rightarrow> (case mapProducts f ps of Throws e \<Rightarrow> False | Returns qs \<Rightarrow> True)
       | Some (Other t) \<Rightarrow> False
       | None \<Rightarrow> False))"

section \<open>Sample data\<close>

text \<open>
  A lower-casing function for ASCII strings, a clock for which no string is a date, three
  products (identifiers \<open>p1\<close>, \<open>p2\<close>, \<open>p3\<close>; names \<open>A\<close>, \<open>B\<close>, \<open>C\<close>) and some
  requests.
\<close>

definition asciiLower :: "jsstring \<Rightarrow> jsstring" where
  "asciiLower s = map (\<lambda>c. if 65 \<le> c \<and> c \<le> 90 then c + 32 else c) s"

definition noDate :: "jsstring \<Rightarrow> jsnum" where
  "noDate s = NaN"

definition sample :: "jsstring \<Rightarrow> jsstring \<Rightarrow> RarityLevel \<Rightarrow> real \<Rightarrow> Product" where
  "sample i n r c =
     \<lparr>productId = i, name = n, nameEn = None, series = [115], rarityLevel = r,
      currentPrice = c, originalPrice = c, mainColor = [], imageUrl = [],
      releaseStatus = Active, releaseDate = [], appearanceRate = None,
      createdAt = [], updatedAt = []\<rparr>"

definition p1 :: Product where "p1 = sample [112, 49] [65] Rare 100"

definition p2 :: Product where "p2 = sample [112, 50] [66] Normal 50"

definition p3 :: Product where "p3 = sample [112, 51] [67] Hidden 75"

definition request :: ProductListRequest where
  "request = \<lparr>page = None, limit = None, search = None, rarity = None, seriesFilter = None,
     minPrice = None, maxPrice = None, sortBy = None, sortOrder = None\<rparr>"

definition priceRequest :: ProductListRequest where
  "priceRequest = request\<lparr>limit := Some 2, sortBy := Some By_price\<rparr>"

definition rarityRequest :: ProductListRequest where
  "rarityRequest = request\<lparr>sortBy := Some By_rarity\<rparr>"

text \<open>
  Four products with release dates: \<open>qa\<close> of 1 March 2024, \<open>qb\<close> of 1 February
  2024, \<open>qx\<close> with the release date \<open>TBD\<close>, which is no date, and \<open>qc\<close> of
  1 January 2024. \<open>sampleTime\<close> gives the three dates the milliseconds that
  \<open>new Date(s).getTime()\<close> gives them, and \<open>NaN\<close> to every other string.
\<close>

definition date_2024_01_01 :: jsstring where
  "date_2024_01_01 = [50, 48, 50, 52, 45, 48, 49, 45, 48, 49]"

definition date_2024_02_01 :: jsstring where
  "date_2024_02_01 = [50, 48, 50, 52, 45, 48, 50, 45, 48, 49]"

definition date_2024_03_01 :: jsstring where
  "date_2024_03_01 = [50, 48, 50, 52, 45, 48, 51, 45, 48, 49]"

definition date_TBD :: jsstring where
  "date_TBD = [84, 66, 68]"

definition sampleTime :: "jsstring \<Rightarrow> jsnum" where
  "sampleTime s =
     (if s = date_2024_01_01 then Num 1704067200000
      else if s = date_2024_02_01 then Num 1706745600000
      else if s = date_2024_03_01 then Num 1709251200000
      else NaN)"

definition qa :: Product where "qa = p1\<lparr>releaseDate := date_2024_03_01\<rparr>"

definition qb :: Product where "qb = p2\<lparr>releaseDate := date_2024_02_01\<rparr>"

definition qx :: Product where "qx = p3\<lparr>releaseDate := date_TBD\<rparr>"

definition qc :: Product where
  "qc = (sample [112, 52] [68] Sp 20)\<lparr>releaseDate := date_2024_01_01\<rparr>"

definition dateRequest :: ProductListRequest where
  "dateRequest = request\<lparr>sortBy := Some By_release_date\<rparr>"

text \<open>
  A store of two product files with one product each, an environment in which the write
  of the first file fails, one in which the backup directory cannot be made, and a
  store with one product that has a field \<open>nameEn\<close>.
\<close>

definition store2 :: fsys where
  "store2 =
     \<lparr>files = [''a.json'' \<mapsto> Records [[(''id'', JStr ''p1''), (''price'', JNum 100), (''rarity'', JStr ''rare'')]],
               ''b.json'' \<mapsto> Records [[(''id'', JStr ''p2''), (''price'', JNum 50), (''rarity'', JStr ''normal'')]]],
      backups = Map.empty\<rparr>"

definition write_of_a_fails :: faults where
  "write_of_a_fails = no_faults\<lparr>write_faults := [''a.json'' \<mapsto> Untouched]\<rparr>"

definition mkdir_broken :: faults where
  "mkdir_broken = no_faults\<lparr>mkdir_fails := True\<rparr>"

definition renameStore :: fsys where
  "renameStore =
     \<lparr>files = [''a.json'' \<mapsto> Records [[(''id'', JStr ''p1''), (''nameEn'', JStr ''Luck'')]]],
      backups = Map.empty\<rparr>"

text \<open>
  A store with one product file of two products, the second of which has a field
  \<open>hasOwnProperty\<close>.
\<close>

definition shadowStore :: fsys where
  "shadowStore =
     \<lparr>files = [''a.json'' \<mapsto> Records [[(''id'', JStr ''p1'')],
                                      [(''id'', JStr ''p2''), (''hasOwnProperty'', JNum 1)]]],
      backups = Map.empty\<rparr>"

text \<open>
  An index of three series, of which the second has no loadable file.
\<close>

definition index2 :: seriesIndex where
  "index2 = \<lparr>seriesList = [\<lparr>seriesKey = ''a'', fileName = ''a.json''\<rparr>,
                            \<lparr>seriesKey = ''broken'', fileName = ''broken.json''\<rparr>,
                            \<lparr>seriesKey = ''b'', fileName = ''b.json''\<rparr>],
             totalSeries = 3\<rparr>"

definition modules2 :: "string \<rightharpoonup> jsobject list" where
  "modules2 = [''a.json'' \<mapsto> [[(''id'', JStr ''p1'')]], ''b.json'' \<mapsto> [[(''id'', JStr ''p2'')]]]"

section \<open>Properties of the query engine\<close>

subsection \<open>The filter chain and the store\<close>

lemma holds_alloc0: "holds h (alloc xs h) xs"
  by (simp add: holds_def alloc_def)

lemma holds_if:
  "holds h (fp, hh) xs \<Longrightarrow>
   holds h (if c then alloc (filter P (hh ! fp)) hh else (fp, hh)) (filter (\<lambda>p. if c then P p else True) xs)"
  by (auto simp add: holds_def alloc_def)

lemma holds_case:
  "holds h (fp, hh) xs \<Longrightarrow>
   holds h (case m of None \<Rightarrow> (fp, hh) | Some v \<Rightarrow> alloc (filter (P v) (hh ! fp)) hh)
     (filter (\<lambda>p. case m of None \<Rightarrow> True | Some v \<Rightarrow> P v p) xs)"
  by (auto simp add: holds_def alloc_def split: option.splits)

lemma holds_sort:
  "holds h (fp, hh) xs \<Longrightarrow> holds h (fp, hh[fp := f (hh ! fp)]) (f xs)"
  by (auto simp add: holds_def)

lemma filterAndSort_holds:
  "holds h (filterAndSort toLowerCase getTime pd params h)
     (Array_sort (comparator toLowerCase getTime params) (filter (matches toLowerCase params) (h ! pd)))"
proof -
  obtain fp0 h0 where s0: "alloc (h ! pd) h = (fp0, h0)" by fastforce
  have i0: "holds h (fp0, h0) (h ! pd)" using holds_alloc0 [of h "h ! pd"] s0 by simp
  let ?s = "case search params of None \<Rightarrow> [] | Some s \<Rightarrow> s"
  let ?r = "case rarity params of None \<Rightarrow> [] | Some r \<Rightarrow> r"
  let ?e = "case seriesFilter params of None \<Rightarrow> [] | Some s \<Rightarrow> s"
  obtain fp1 h1 where s1: "(if trim_truthy ?s
             then alloc (filter (searchMatches toLowerCase (toLowerCase ?s)) (h0 ! fp0)) h0
             else (fp0, h0)) = (fp1, h1)" by fastforce
  note i1 = holds_if [OF i0, where c = "trim_truthy ?s" and P = "searchMatches toLowerCase (toLowerCase ?s)", unfolded s1]
  obtain fp2 h2 where s2: "(if ?r \<noteq> []
             then alloc (filter (\<lambda>p. rarityLevel p \<in> set ?r) (h1 ! fp1)) h1
             else (fp1, h1)) = (fp2, h2)" by fastforce
  note i2 = holds_if [OF i1, where c = "?r \<noteq> []" and P = "\<lambda>p. rarityLevel p \<in> set ?r", unfolded s2]
  obtain fp3 h3 where s3: "(if ?e \<noteq> []
             then alloc (filter (\<lambda>p. series p \<in> set ?e) (h2 ! fp2)) h2
             else (fp2, h2)) = (fp3, h3)" by fastforce
  note i3 = holds_if [OF i2, where c = "?e \<noteq> []" and P = "\<lambda>p. series p \<in> set ?e", unfolded s3]
  obtain fp4 h4 where s4: "(case minPrice params of
               None \<Rightarrow> (fp3, h3)
             | Some lo \<Rightarrow> alloc (filter (\<lambda>p. js_le lo (Num (currentPrice p))) (h3 ! fp3)) h3) = (fp4, h4)" by fastforce
  note i4 = holds_case [OF i3, where m = "minPrice params" and P = "\<lambda>lo p. js_le lo (Num (currentPrice p))", unfolded s4]
  obtain fp5 h5 where s5: "(case maxPrice params of
               None \<Rightarrow> (fp4, h4)
             | Some hi \<Rightarrow> alloc (filter (\<lambda>p. js_le (Num (currentPrice p)) hi) (h4 ! fp4)) h4) = (fp5, h5)" by fastforce
  note i5 = holds_case [OF i4, where m = "maxPrice params" and P = "\<lambda>hi p. js_le (Num (currentPrice p)) hi", unfolded s5]
  note i6 = holds_sort [OF i5, where f = "Array_sort (comparator toLowerCase getTime params)"]
  have r: "filterAndSort toLowerCase getTime pd params h =
      (fp5, h5[fp5 := Array_sort (comparator toLowerCase getTime params) (h5 ! fp5)])"
    unfolding filterAndSort_def Let_def comparator_def s0 prod.case s1 s2 s3 s4 s5 ..
  have m: "filter (\<lambda>p. case maxPrice params of None \<Rightarrow> True | Some hi \<Rightarrow> js_le (Num (currentPrice p)) hi)
     (filter (\<lambda>p. case minPrice params of None \<Rightarrow> True | Some lo \<Rightarrow> js_le lo (Num (currentPrice p)))
       (filter (\<lambda>p. if ?e \<noteq> [] then series p \<in> set ?e else True)
         (filter (\<lambda>p. if ?r \<noteq> [] then rarityLevel p \<in> set ?r else True)
           (filter (\<lambda>p. if trim_truthy ?s then searchMatches toLowerCase (toLowerCase ?s) p else True)
             (h ! pd))))) = filter (matches toLowerCase params) (h ! pd)"
    unfolding filter_filter matches_def Let_def by (rule filter_cong) auto
  show ?thesis using i6 unfolding r m .
qed

lemma sortedArray_eq:
  "sortedArray toLowerCase getTime pd params h =
     Array_sort (comparator toLowerCase getTime params) (filter (matches toLowerCase params) (h ! pd))"
  using filterAndSort_holds [of h toLowerCase getTime pd params]
  by (auto simp add: sortedArray_def holds_def split: prod.splits)

lemma filterAndSort_frame:
  "take (length h) (snd (filterAndSort toLowerCase getTime pd params h)) = h"
  using filterAndSort_holds [of h toLowerCase getTime pd params]
  by (auto simp add: holds_def split: prod.splits)

lemma getProducts_fst:
  "fst (getProducts toLowerCase getTime pd params h) =
     (let page' = (case page params of None \<Rightarrow> 1 | Some p \<Rightarrow> p);
          limit' = (case limit params of None \<Rightarrow> 20 | Some l \<Rightarrow> l);
          S = sortedArray toLowerCase getTime pd params h
      in \<lparr>products = Array_slice ((page' - 1) * limit') ((page' - 1) * limit' + limit') S,
          total = int (length S), pageNo = page',
          totalPages = Math_ceil_div (int (length S)) limit'\<rparr>)"
  by (simp add: getProducts_def sortedArray_def Let_def alloc_def split: prod.splits)

lemma getProducts_frame:
  "take (length h) (snd (getProducts toLowerCase getTime pd params h)) = h"
proof -
  obtain fp h1 where f: "filterAndSort toLowerCase getTime pd params h = (fp, h1)" by fastforce
  have t: "take (length h) h1 = h" using filterAndSort_frame [of h toLowerCase getTime pd params] f by simp
  then have "length h \<le> length h1" by (metis length_take min.cobounded2 min.commute)
  then show ?thesis using t
    by (simp add: getProducts_def Let_def alloc_def f)
qed

subsection \<open>The sort\<close>

lemma binarySearch_Nil [simp]: "binarySearch cmp pivot [] = 0"
  by (simp add: binarySearch.simps)

lemma binarySearch_Cons:
  "binarySearch cmp pivot (y # ys) =
     (let mid = length (y # ys) div 2
      in if cmp pivot ((y # ys) ! mid) < 0 then binarySearch cmp pivot (take mid (y # ys))
         else mid + 1 + binarySearch cmp pivot (drop (mid + 1) (y # ys)))"
  by (subst binarySearch.simps) simp

lemma count_take_drop: "count_list (take k ys) z + count_list (drop k ys) z = count_list ys z"
  by (metis append_take_drop_id count_list_append)

lemma count_binaryInsert: "count_list (binaryInsert cmp ys p) z = count_list (p # ys) z"
  by (simp add: binaryInsert_def Let_def count_take_drop)

lemma length_binaryInsert: "length (binaryInsert cmp ys p) = Suc (length ys)"
  by (simp add: binaryInsert_def Let_def)

lemma count_foldl_insert:
  "count_list (foldl (binaryInsert cmp) acc ps) z = count_list acc z + count_list ps z"
  by (induction ps arbitrary: acc) (simp_all add: count_binaryInsert)

lemma length_foldl_insert: "length (foldl (binaryInsert cmp) acc ps) = length acc + length ps"
  by (induction ps arbitrary: acc) (simp_all add: length_binaryInsert)

lemma Array_sort_shape:
  "\<exists>run rest. xs = run @ rest \<and>
     (Array_sort cmp xs = foldl (binaryInsert cmp) run rest
      \<or> Array_sort cmp xs = foldl (binaryInsert cmp) (rev run) rest)"
proof (cases xs)
  case Nil
  then have "xs = [] @ [] \<and> Array_sort cmp xs = foldl (binaryInsert cmp) [] []"
    by (simp add: Array_sort_def)
  then show ?thesis by blast
next
  case (Cons x0 ys)
  show ?thesis
  proof (cases ys)
    case Nil
    then have "xs = [x0] @ [] \<and> Array_sort cmp xs = foldl (binaryInsert cmp) [x0] []"
      using Cons by (simp add: Array_sort_def)
    then show ?thesis by blast
  next
    case (Cons x1 rest)
    define n where "n = 2 + countRun cmp (cmp x1 x0 < 0) x1 rest"
    have "xs = take n xs @ drop n xs" by simp
    moreover have "Array_sort cmp xs = foldl (binaryInsert cmp) (take n xs) (drop n xs)
      \<or> Array_sort cmp xs = foldl (binaryInsert cmp) (rev (take n xs)) (drop n xs)"
      using \<open>xs = x0 # ys\<close> Cons
      by (simp add: Array_sort_def Let_def n_def del: take_Suc_Cons drop_Suc_Cons)
    ultimately show ?thesis by blast
  qed
qed

lemma count_Array_sort: "count_list (Array_sort cmp xs) z = count_list xs z"
proof -
  obtain run rest where "xs = run @ rest"
    "Array_sort cmp xs = foldl (binaryInsert cmp) run rest
      \<or> Array_sort cmp xs = foldl (binaryInsert cmp) (rev run) rest"
    using Array_sort_shape [of xs cmp] by blast
  then show ?thesis by (auto simp add: count_foldl_insert count_list_rev)
qed

lemma length_Array_sort: "length (Array_sort cmp xs) = length xs"
proof -
  obtain run rest where "xs = run @ rest"
    "Array_sort cmp xs = foldl (binaryInsert cmp) run rest
      \<or> Array_sort cmp xs = foldl (binaryInsert cmp) (rev run) rest"
    using Array_sort_shape [of xs cmp] by blast
  then show ?thesis by (auto simp add: length_foldl_insert)
qed

lemma set_Array_sort: "set (Array_sort cmp xs) = set xs"
proof -
  have "(x \<in> set (Array_sort cmp xs)) = (x \<in> set xs)" for x
    using count_Array_sort [of cmp xs x] by (metis count_list_0_iff)
  then show ?thesis by blast
qed

lemma sorted_take_le:
  fixes key :: "'a \<Rightarrow> 'k::linorder"
  assumes "sorted (map key ys)"
  shows "take (length (filter (\<lambda>y. key y \<le> k) ys)) ys = filter (\<lambda>y. key y \<le> k) ys
       \<and> drop (length (filter (\<lambda>y. key y \<le> k) ys)) ys = filter (\<lambda>y. k < key y) ys"
  using assms
proof (induction ys)
  case Nil
  then show ?case by simp
next
  case (Cons y ys)
  show ?case
  proof (cases "key y \<le> k")
    case True
    then show ?thesis using Cons by auto
  next
    case False
    then have "\<forall>z \<in> set ys. k < key z" using Cons.prems by auto
    then have "filter (\<lambda>y. key y \<le> k) ys = []" "filter (\<lambda>y. k < key y) ys = ys"
      by (auto simp add: filter_empty_conv)
    then show ?thesis using False by simp
  qed
qed

lemma binarySearch_sorted:
  fixes key :: "'a \<Rightarrow> 'k::linorder"
  assumes "\<forall>y \<in> set seg. (cmp pivot y < 0) = (key pivot < key y)" and "sorted (map key seg)"
  shows "binarySearch cmp pivot seg = length (filter (\<lambda>y. key y \<le> key pivot) seg)"
  using assms
proof (induction cmp pivot seg rule: binarySearch.induct)
  case (1 cmp pivot seg)
  show ?case
  proof (cases "seg = []")
    case True
    then show ?thesis by simp
  next
    case False
    define mid where "mid = length seg div 2"
    have md: "mid = length seg div 2" by (simp add: mid_def)
    have ml: "mid < length seg" using False by (simp add: mid_def)
    have split: "seg = take mid seg @ seg ! mid # drop (mid + 1) seg"
      using ml by (simp add: id_take_nth_drop)
    have mem: "seg ! mid \<in> set seg" using ml by simp
    have st: "sorted (map key (take mid seg))" "sorted (map key (drop (mid + 1) seg))"
      using "1.prems"(2) by (simp_all add: sorted_wrt_take sorted_wrt_drop sorted_map)
    have sub: "\<forall>y \<in> set (take mid seg). (cmp pivot y < 0) = (key pivot < key y)"
      "\<forall>y \<in> set (drop (mid + 1) seg). (cmp pivot y < 0) = (key pivot < key y)"
      using "1.prems"(1) by (auto dest: in_set_takeD in_set_dropD)
    have srt: "sorted (map key (take mid seg) @ key (seg ! mid) # map key (drop (mid + 1) seg))"
      using "1.prems"(2) split by (metis list.simps(9) map_append)
    show ?thesis
    proof (cases "cmp pivot (seg ! mid) < 0")
      case True
      then have lt: "key pivot < key (seg ! mid)" using "1.prems"(1) mem by blast
      have "binarySearch cmp pivot seg = binarySearch cmp pivot (take mid seg)"
        using False True by (subst binarySearch.simps) (simp add: mid_def Let_def)
      also have "\<dots> = length (filter (\<lambda>y. key y \<le> key pivot) (take mid seg))"
        using "1.IH"(1) [OF False md True sub(1) st(1)] .
      also have "\<dots> = length (filter (\<lambda>y. key y \<le> key pivot) seg)"
      proof -
        have "\<forall>z \<in> set (drop (mid + 1) seg). key (seg ! mid) \<le> key z"
          using srt by (auto simp add: sorted_append)
        then have "filter (\<lambda>y. key y \<le> key pivot) (seg ! mid # drop (mid + 1) seg) = []"
          using lt by (auto simp add: filter_empty_conv)
        then show ?thesis by (subst (2) split) (simp del: append_take_drop_id)
      qed
      finally show ?thesis .
    next
      case nlt: False
      then have ge: "key (seg ! mid) \<le> key pivot" using "1.prems"(1) mem by auto
      have "binarySearch cmp pivot seg = mid + 1 + binarySearch cmp pivot (drop (mid + 1) seg)"
        using False nlt by (subst binarySearch.simps) (simp add: mid_def Let_def)
      also have "binarySearch cmp pivot (drop (mid + 1) seg)
          = length (filter (\<lambda>y. key y \<le> key pivot) (drop (mid + 1) seg))"
        using "1.IH"(2) [OF False md nlt sub(2) st(2)] .
      also have "mid + 1 + length (filter (\<lambda>y. key y \<le> key pivot) (drop (mid + 1) seg))
          = length (filter (\<lambda>y. key y \<le> key pivot) seg)"
      proof -
        have "\<forall>z \<in> set (take mid seg). key z \<le> key (seg ! mid)"
          using srt by (auto simp add: sorted_append)
        then have "filter (\<lambda>y. key y \<le> key pivot) (take mid seg) = take mid seg"
          using ge by (auto simp add: filter_id_conv)
        then have "length (filter (\<lambda>y. key y \<le> key pivot) (take mid seg)) = mid"
          using ml by simp
        then show ?thesis using ge by (subst (2) split) (simp del: append_take_drop_id)
      qed
      finally show ?thesis .
    qed
  qed
qed

lemma set_binaryInsert: "set (binaryInsert cmp ys p) = insert p (set ys)"
proof -
  have "set (take k ys) \<union> set (drop k ys) = set ys" for k
    by (metis append_take_drop_id set_append)
  then show ?thesis by (auto simp add: binaryInsert_def Let_def)
qed

lemma binaryInsert_sorted:
  fixes key :: "'a \<Rightarrow> 'k::linorder"
  assumes "\<forall>y \<in> set ys. (cmp p y < 0) = (key p < key y)" and "sorted (map key ys)"
  shows "binaryInsert cmp ys p
           = filter (\<lambda>y. key y \<le> key p) ys @ p # filter (\<lambda>y. key p < key y) ys"
  using sorted_take_le [OF assms(2), of "key p"]
    binarySearch_sorted [where key = key and cmp = cmp and pivot = p and seg = ys, OF assms]
  by (simp add: binaryInsert_def Let_def)

lemma binaryInsert_keeps_sorted:
  fixes key :: "'a \<Rightarrow> 'k::linorder"
  assumes "\<forall>y \<in> set ys. (cmp p y < 0) = (key p < key y)" and "sorted (map key ys)"
  shows "sorted (map key (binaryInsert cmp ys p))"
  using assms(2)
  by (auto simp add: binaryInsert_sorted [where key = key and cmp = cmp and p = p and ys = ys, OF assms] sorted_append
      intro: sorted_filter)

lemma binaryInsert_level:
  fixes key :: "'a \<Rightarrow> 'k::linorder"
  assumes "\<forall>y \<in> set ys. (cmp p y < 0) = (key p < key y)" and "sorted (map key ys)"
  shows "filter (\<lambda>y. key y = k) (binaryInsert cmp ys p)
           = filter (\<lambda>y. key y = k) (ys @ [p])"
proof -
  have a: "filter (\<lambda>y. key y = k) (filter (\<lambda>y. key y \<le> key p) ys)
      = (if k \<le> key p then filter (\<lambda>y. key y = k) ys else [])"
    by (auto simp add: filter_empty_conv intro: filter_cong)
  have b: "filter (\<lambda>y. key y = k) (filter (\<lambda>y. key p < key y) ys)
      = (if key p < k then filter (\<lambda>y. key y = k) ys else [])"
    by (auto simp add: filter_empty_conv intro: filter_cong)
  show ?thesis
    unfolding binaryInsert_sorted [where key = key and cmp = cmp and p = p and ys = ys, OF assms] filter_append filter.simps a b
    by auto
qed

lemma foldl_insert_sorted:
  fixes key :: "'a \<Rightarrow> 'k::linorder"
  assumes "\<forall>a \<in> set acc \<union> set ps. \<forall>b \<in> set acc \<union> set ps. (cmp a b < 0) = (key a < key b)"
    and "sorted (map key acc)"
  shows "sorted (map key (foldl (binaryInsert cmp) acc ps))
       \<and> filter (\<lambda>y. key y = k) (foldl (binaryInsert cmp) acc ps)
           = filter (\<lambda>y. key y = k) (acc @ ps)"
  using assms
proof (induction ps arbitrary: acc)
  case Nil
  then show ?case by simp
next
  case (Cons p ps)
  have c: "\<forall>y \<in> set acc. (cmp p y < 0) = (key p < key y)" using Cons.prems(1) by simp
  have s: "sorted (map key (binaryInsert cmp acc p))"
    using binaryInsert_keeps_sorted [where key = key and cmp = cmp and p = p and ys = acc, OF c Cons.prems(2)] .
  have m: "\<forall>a \<in> set (binaryInsert cmp acc p) \<union> set ps.
           \<forall>b \<in> set (binaryInsert cmp acc p) \<union> set ps. (cmp a b < 0) = (key a < key b)"
    using Cons.prems(1) by (simp add: set_binaryInsert)
  from Cons.IH [OF m s] binaryInsert_level [where key = key and cmp = cmp and p = p and ys = acc and k = k, OF c Cons.prems(2)]
  show ?case by simp
qed

lemma countRun_ascending:
  fixes key :: "'a \<Rightarrow> 'k::linorder"
  assumes "\<forall>a \<in> set (prev # rest). \<forall>b \<in> set (prev # rest). (cmp a b < 0) = (key a < key b)"
  shows "sorted (map key (prev # take (countRun cmp False prev rest) rest))"
  using assms
proof (induction rest arbitrary: prev)
  case Nil
  then show ?case by simp
next
  case (Cons c cs)
  show ?case
  proof (cases "cmp c prev < 0")
    case True
    then show ?thesis by simp
  next
    case False
    then have le: "key prev \<le> key c" using Cons.prems by auto
    have "sorted (map key (c # take (countRun cmp False c cs) cs))"
      using Cons.IH [of c] Cons.prems by simp
    then show ?thesis using False le by (auto simp add: Let_def intro: order_trans)
  qed
qed

lemma countRun_descending:
  fixes key :: "'a \<Rightarrow> 'k::linorder"
  assumes "\<forall>a \<in> set (prev # rest). \<forall>b \<in> set (prev # rest). (cmp a b < 0) = (key a < key b)"
  shows "sorted_wrt (\<lambda>a b. key b < key a) (prev # take (countRun cmp True prev rest) rest)"
  using assms
proof (induction rest arbitrary: prev)
  case Nil
  then show ?case by simp
next
  case (Cons c cs)
  show ?case
  proof (cases "cmp c prev < 0")
    case False
    then show ?thesis by simp
  next
    case True
    then have lt: "key c < key prev" using Cons.prems by auto
    have ih: "sorted_wrt (\<lambda>a b. key b < key a) (c # take (countRun cmp True c cs) cs)"
      using Cons.IH [of c] Cons.prems by simp
    then have "\<forall>z \<in> set (take (countRun cmp True c cs) cs). key z < key prev"
      using lt by auto
    then show ?thesis using True lt ih by (simp add: Let_def)
  qed
qed

lemma descending_run_reversed:
  fixes key :: "'a \<Rightarrow> 'k::linorder"
  assumes "sorted_wrt (\<lambda>a b. key b < key a) run"
  shows "sorted (map key (rev run))
       \<and> filter (\<lambda>y. key y = k) (rev run) = filter (\<lambda>y. key y = k) run"
  using assms
proof (induction run)
  case Nil
  then show ?case by simp
next
  case (Cons x xs)
  then have ih: "sorted (map key (rev xs))"
    "filter (\<lambda>y. key y = k) (rev xs) = filter (\<lambda>y. key y = k) xs" by simp_all
  have below: "\<forall>z \<in> set xs. key z < key x" using Cons.prems by simp
  have s: "sorted (map key (rev (x # xs)))"
    using ih(1) below by (auto simp add: sorted_append less_imp_le)
  have f: "filter (\<lambda>y. key y = k) (rev (x # xs)) = filter (\<lambda>y. key y = k) (x # xs)"
  proof (cases "key x = k")
    case True
    then have "filter (\<lambda>y. key y = k) xs = []" using below by (auto simp add: filter_empty_conv)
    then show ?thesis using True ih(2) by simp
  next
    case False
    then show ?thesis using ih(2) by simp
  qed
  show ?case using s f by blast
qed

lemma Array_sort_consistent:
  fixes key :: "'a \<Rightarrow> 'k::linorder"
  assumes c: "\<forall>a \<in> set xs. \<forall>b \<in> set xs. (cmp a b < 0) = (key a < key b)"
  shows "sorted (map key (Array_sort cmp xs))
       \<and> filter (\<lambda>y. key y = k) (Array_sort cmp xs) = filter (\<lambda>y. key y = k) xs"
proof (cases xs)
  case Nil
  then show ?thesis by (simp add: Array_sort_def)
next
  case (Cons x0 ys)
  show ?thesis
  proof (cases ys)
    case Nil
    then show ?thesis using Cons by (simp add: Array_sort_def)
  next
    case ys: (Cons x1 rest)
    define desc where "desc = (cmp x1 x0 < 0)"
    define n where "n = countRun cmp desc x1 rest"
    define run where "run = x0 # x1 # take n rest"
    define start where "start = (if desc then rev run else run)"
    have xs: "xs = run @ drop n rest" using Cons ys by (simp add: run_def)
    have A: "Array_sort cmp xs = foldl (binaryInsert cmp) start (drop n rest)"
      using Cons ys by (simp add: Array_sort_def Let_def desc_def n_def run_def start_def)
    have c1: "\<forall>a \<in> set (x1 # rest). \<forall>b \<in> set (x1 # rest). (cmp a b < 0) = (key a < key b)"
      using c Cons ys by simp
    have st: "sorted (map key start)
        \<and> filter (\<lambda>y. key y = k) start = filter (\<lambda>y. key y = k) run"
    proof (cases desc)
      case False
      then have "key x0 \<le> key x1" using c Cons ys by (auto simp add: desc_def)
      moreover have "sorted (map key (x1 # take n rest))"
        using countRun_ascending [where key = key and cmp = cmp and prev = x1 and rest = rest, OF c1] False by (simp add: n_def)
      ultimately show ?thesis using False by (auto simp add: start_def run_def intro: order_trans)
    next
      case True
      then have lt: "key x1 < key x0" using c Cons ys by (auto simp add: desc_def)
      have d: "sorted_wrt (\<lambda>a b. key b < key a) (x1 # take n rest)"
        using countRun_descending [where key = key and cmp = cmp and prev = x1 and rest = rest, OF c1] True by (simp add: n_def)
      then have "\<forall>z \<in> set (take n rest). key z < key x0" using lt by auto
      then have "sorted_wrt (\<lambda>a b. key b < key a) run"
        using d lt by (simp add: run_def)
      from descending_run_reversed [OF this, of k] True show ?thesis by (simp add: start_def)
    qed
    have sets: "set start = set run" by (simp add: start_def)
    have cc: "\<forall>a \<in> set start \<union> set (drop n rest). \<forall>b \<in> set start \<union> set (drop n rest).
        (cmp a b < 0) = (key a < key b)"
      using c xs sets by simp
    have "sorted (map key (foldl (binaryInsert cmp) start (drop n rest)))
       \<and> filter (\<lambda>y. key y = k) (foldl (binaryInsert cmp) start (drop n rest))
           = filter (\<lambda>y. key y = k) (start @ drop n rest)"
      using st by (intro foldl_insert_sorted [where key = key] cc) simp
    then have "sorted (map key (Array_sort cmp xs))
       \<and> filter (\<lambda>y. key y = k) (Array_sort cmp xs)
           = filter (\<lambda>y. key y = k) run @ filter (\<lambda>y. key y = k) (drop n rest)"
      using st unfolding A by simp
    then show ?thesis by (subst (3) xs) simp
  qed
qed

lemma js_less_irrefl: "\<not> js_less a a"
  by (cases a) simp_all

lemma val_less_irrefl: "\<not> val_less v v"
  by (cases v) (simp_all add: js_less_irrefl)

lemma compareFn_refl: "compareFn lc gt sb so a a = 0"
  by (simp add: compareFn_def Let_def val_less_irrefl)

lemma compareFn_zero_sym: "compareFn lc gt sb so a b = 0 \<Longrightarrow> compareFn lc gt sb so b a = 0"
  by (auto simp add: compareFn_def Let_def split: if_splits)

subsection \<open>Pages\<close>

lemma slice_page:
  assumes "1 \<le> L"
  shows "Array_slice (int k * L) (int k * L + L) xs = take (nat L) (drop (k * nat L) xs)"
proof -
  have n: "nat (int k * L) = k * nat L" using assms by (simp add: nat_mult_distrib)
  have nn: "0 \<le> int k * L" using assms by simp
  show ?thesis
  proof (cases "int k * L \<le> int (length xs)")
    case True
    then have "k * nat L \<le> length xs" using n nn by linarith
    then show ?thesis using True nn n assms
      by (auto simp add: Array_slice_def Let_def min_def)
  next
    case False
    then have "length xs < k * nat L" using n nn by linarith
    then show ?thesis using False nn n assms
      by (auto simp add: Array_slice_def Let_def min_def)
  qed
qed

lemma concat_pages: "concat (map (\<lambda>k. take l (drop (k * l) xs)) [0..<n]) = take (n * l) xs"
proof (induction n)
  case 0
  then show ?case by simp
next
  case (Suc n)
  have "take (n * l + l) xs = take (n * l) xs @ take l (drop (n * l) xs)"
    by (rule take_add)
  then have "take (Suc n * l) xs = take (n * l) xs @ take l (drop (n * l) xs)"
    by (simp add: add.commute)
  then show ?case using Suc by simp
qed

lemma upto_as_upt: "map f [1..int n] = map (\<lambda>k. f (int k + 1)) [0..<n]"
proof (induction n)
  case 0
  then show ?case by simp
next
  case (Suc n)
  have "[1..int (Suc n)] = [1..int n] @ [int n + 1]"
    using upto_rec2 [of 1 "int (Suc n)"] by (simp add: add.commute)
  then show ?case using Suc by simp
qed

lemma pages_cover:
  assumes "1 \<le> L"
  shows "concat (map (\<lambda>p. Array_slice ((p - 1) * L) ((p - 1) * L + L) xs)
           [1..\<lceil>real (length xs) / real_of_int L\<rceil>]) = xs"
proof -
  define T where "T = \<lceil>real (length xs) / real_of_int L\<rceil>"
  have "0 \<le> real (length xs) / real_of_int L" using assms by simp
  then have Tn: "0 \<le> T" unfolding T_def by (metis ceiling_mono ceiling_zero)
  have "real (length xs) / real_of_int L \<le> of_int T" unfolding T_def by (rule le_of_int_ceiling)
  then have "real (length xs) \<le> of_int T * real_of_int L"
    using assms by (simp add: pos_divide_le_eq)
  then have "int (length xs) \<le> T * L" by (metis of_int_mult of_int_le_iff of_int_of_nat_eq)
  then have cover: "length xs \<le> nat T * nat L"
    using Tn assms by (metis nat_mult_distrib nat_int nat_mono)
  have "map (\<lambda>p. Array_slice ((p - 1) * L) ((p - 1) * L + L) xs) [1..int (nat T)]
        = map (\<lambda>k. Array_slice ((int k + 1 - 1) * L) ((int k + 1 - 1) * L + L) xs) [0..<nat T]"
    by (rule upto_as_upt)
  also have "\<dots> = map (\<lambda>k. take (nat L) (drop (k * nat L) xs)) [0..<nat T]"
    by (simp add: slice_page [OF assms])
  finally have "concat (map (\<lambda>p. Array_slice ((p - 1) * L) ((p - 1) * L + L) xs) [1..int (nat T)])
        = concat (map (\<lambda>k. take (nat L) (drop (k * nat L) xs)) [0..<nat T])"
    by simp
  also have "\<dots> = take (nat T * nat L) xs" by (rule concat_pages)
  also have "\<dots> = xs" using cover by simp
  finally show ?thesis using Tn by (simp add: T_def)
qed

lemma page_beyond:
  assumes "1 \<le> L" and "\<lceil>real (length xs) / real_of_int L\<rceil> < p"
  shows "Array_slice ((p - 1) * L) ((p - 1) * L + L) xs = []"
proof -
  define T where "T = \<lceil>real (length xs) / real_of_int L\<rceil>"
  have "real (length xs) / real_of_int L \<le> of_int T" unfolding T_def by (rule le_of_int_ceiling)
  then have "real (length xs) \<le> of_int T * real_of_int L"
    using assms by (simp add: pos_divide_le_eq)
  then have a: "int (length xs) \<le> T * L" by (metis of_int_mult of_int_le_iff of_int_of_nat_eq)
  have "T \<le> p - 1" using assms(2) by (simp add: T_def)
  then have "T * L \<le> (p - 1) * L" using assms(1) by (simp add: mult_right_mono)
  then have "int (length xs) \<le> (p - 1) * L" using a by linarith
  then show ?thesis using assms(1)
    by (auto simp add: Array_slice_def Let_def min_def)
qed

subsection \<open>Pagination\<close>

lemma matches_page [simp]: "matches lc (params\<lparr>page := p\<rparr>) = matches lc params"
  by (rule ext) (simp add: matches_def)

lemma sortedArray_page [simp]:
  "sortedArray lc gt pd (params\<lparr>page := p\<rparr>) h = sortedArray lc gt pd params h"
  by (simp add: sortedArray_eq matches_def comparator_def)

text \<open>
  Claim C4. For every collection (the array at \<open>productsData\<close> in the store) and every
  request whose page size is at least 1 (the given \<open>limit\<close>, or 20 when there is none):
  the filtered array, sorted, is \<open>S\<close>; the pages 1 to \<open>totalPages\<close> of the query,
  concatenated, are exactly \<open>S\<close>, so every record of the filtered array occurs in them
  as often as in the filtered array, in sort order; every page reports the size of the
  filtered array as \<open>total\<close> and the same \<open>totalPages\<close>, the ceiling of size over page
  size; and a page number beyond \<open>totalPages\<close> gives the empty array. Page numbers
  and page sizes are integers.
\<close>

theorem pages_reproduce_filtered_sorted:
  assumes "1 \<le> (case limit params of None \<Rightarrow> 20 | Some l \<Rightarrow> l)"
  shows "let L = (case limit params of None \<Rightarrow> 20 | Some l \<Rightarrow> l);
             F = filter (matches toLowerCase params) (h ! productsData);
             S = sortedArray toLowerCase getTime productsData params h;
             T = \<lceil>real (length F) / real_of_int L\<rceil>;
             query = (\<lambda>p. fst (getProducts toLowerCase getTime productsData (params\<lparr>page := Some p\<rparr>) h))
         in S = Array_sort (comparator toLowerCase getTime params) F
          \<and> concat (map (\<lambda>p. products (query p)) [1..T]) = S
          \<and> (\<forall>x. count_list (concat (map (\<lambda>p. products (query p)) [1..T])) x = count_list F x)
          \<and> (\<forall>p. total (query p) = int (length F) \<and> totalPages (query p) = Num (of_int T))
          \<and> (\<forall>p. T < p \<longrightarrow> products (query p) = [])"
proof -
  define L where "L = (case limit params of None \<Rightarrow> 20 | Some l \<Rightarrow> l)"
  define F where "F = filter (matches toLowerCase params) (h ! productsData)"
  define S where "S = sortedArray toLowerCase getTime productsData params h"
  define T where "T = \<lceil>real (length F) / real_of_int L\<rceil>"
  define query where "query = (\<lambda>p. fst (getProducts toLowerCase getTime productsData (params\<lparr>page := Some p\<rparr>) h))"
  have L1: "1 \<le> L" using assms by (simp add: L_def)
  have S: "S = Array_sort (comparator toLowerCase getTime params) F"
    by (simp add: S_def F_def sortedArray_eq)
  have len: "length S = length F" by (simp add: S length_Array_sort)
  have q: "query p = \<lparr>products = Array_slice ((p - 1) * L) ((p - 1) * L + L) S,
          total = int (length S), pageNo = p, totalPages = Math_ceil_div (int (length S)) L\<rparr>" for p
    by (simp add: query_def getProducts_fst Let_def L_def S_def)
  have cat: "concat (map (\<lambda>p. products (query p)) [1..T]) = S"
    using pages_cover [OF L1, of S] by (simp add: q T_def len)
  have cnt: "count_list (concat (map (\<lambda>p. products (query p)) [1..T])) x = count_list F x" for x
    by (simp only: cat S count_Array_sort)
  have tot: "total (query p) = int (length F) \<and> totalPages (query p) = Num (of_int T)" for p
    using L1 by (simp add: q len Math_ceil_div_def T_def)
  have beyond: "products (query p) = []" if "T < p" for p
    using page_beyond [OF L1, of S p] that by (simp add: q T_def len)
  show ?thesis
    unfolding Let_def L_def [symmetric] F_def [symmetric] S_def [symmetric] T_def [symmetric] query_def [symmetric]
    using S cat cnt tot beyond by blast
qed

text \<open>
  Claim C4, at three products sorted by price with page size 2: the two pages together are
  \<open>p2, p3, p1\<close>, and page 3 is empty.
\<close>

theorem pages_reproduce_filtered_sorted_witness:
  "concat (map (\<lambda>p. products (fst (getProducts asciiLower noDate 0
       (priceRequest\<lparr>page := Some p\<rparr>) [[p1, p2, p3]]))) [1..2]) = [p2, p3, p1]
   \<and> products (fst (getProducts asciiLower noDate 0
       (priceRequest\<lparr>page := Some 3\<rparr>) [[p1, p2, p3]])) = []"
proof -
  have l: "1 \<le> (case limit priceRequest of None \<Rightarrow> 20 | Some l \<Rightarrow> l)"
    by (simp add: priceRequest_def request_def)
  have F: "filter (matches asciiLower priceRequest) ([[p1, p2, p3]] ! 0) = [p1, p2, p3]"
    by (simp add: matches_def priceRequest_def request_def trim_truthy_def)
  have S: "Array_sort (comparator asciiLower noDate priceRequest) [p1, p2, p3] = [p2, p3, p1]"
    by (simp add: comparator_def priceRequest_def request_def compareFn_def sortValue_def
        p1_def p2_def p3_def sample_def Array_sort_def binaryInsert_def binarySearch_Cons Let_def)
  have T: "\<lceil>real (length [p1, p2, p3]) / real_of_int (case limit priceRequest of None \<Rightarrow> 20 | Some l \<Rightarrow> l)\<rceil> = 2"
    by (simp add: priceRequest_def request_def)
  note w = pages_reproduce_filtered_sorted [OF l, of asciiLower "[[p1, p2, p3]]" 0 noDate,
      unfolded Let_def F S T]
  from w have "(2::int) < 3 \<longrightarrow> products (fst (getProducts asciiLower noDate 0
       (priceRequest\<lparr>page := Some 3\<rparr>) [[p1, p2, p3]])) = []" by blast
  then show ?thesis using w by simp
qed

subsection \<open>Sort order and stability\<close>

lemma sorted_slice: "sorted (map f xs) \<Longrightarrow> sorted (map f (Array_slice i j xs))"
  by (simp add: Array_slice_def Let_def take_map [symmetric] drop_map [symmetric] sorted_wrt_take sorted_wrt_drop del: take_map drop_map)

lemma sorted_down_rev: "sorted (map (\<lambda>x. Down (f x)) xs) \<Longrightarrow> sorted (rev (map f xs))"
  by (simp add: sorted_wrt_rev sorted_wrt_map less_eq_down_def)

lemma rarityOrder_enumerationRank: "rarityOrder r = int (enumerationRank r) + 1"
  by (cases r) (simp_all add: enumerationRank_def rarityEnumeration_def)

lemma compareFn_numeric:
  assumes "sortValue toLowerCase getTime sb a = NumVal (Num x)"
      and "sortValue toLowerCase getTime sb b = NumVal (Num y)"
  shows "(compareFn toLowerCase getTime sb so a b < 0) = (if so = Asc then x < y else y < x)"
    and "(compareFn toLowerCase getTime sb so a b = 0) = (x = y)"
  using assms by (auto simp add: compareFn_def Let_def)

lemma compareFn_string:
  assumes "sortValue toLowerCase getTime sb a = StrVal x"
      and "sortValue toLowerCase getTime sb b = StrVal y"
  shows "(compareFn toLowerCase getTime sb so a b < 0) = (if so = Asc then x < y else y < x)"
    and "(compareFn toLowerCase getTime sb so a b = 0) = (x = y)"
  using assms by (auto simp add: compareFn_def Let_def)

lemma Array_sort_keeps_level:
  fixes key :: "'a \<Rightarrow> 'k::linorder"
  assumes c: "\<forall>a \<in> set xs. \<forall>b \<in> set xs. (cmp a b < 0) = (key a < key b)"
      and z: "\<forall>a \<in> set xs. \<forall>b \<in> set xs. (cmp a b = 0) = (key a = key b)"
      and a: "a \<in> set xs"
  shows "filter (\<lambda>x. cmp a x = 0) (Array_sort cmp xs) = filter (\<lambda>x. cmp a x = 0) xs"
proof -
  have e: "filter (\<lambda>x. cmp a x = 0) ys = filter (\<lambda>y. key y = key a) ys" if "set ys = set xs" for ys
    by (rule filter_cong) (use that z a in auto)
  have "filter (\<lambda>y. key y = key a) (Array_sort cmp xs) = filter (\<lambda>y. key y = key a) xs"
    using Array_sort_consistent [OF c, of "key a"] by blast
  then show ?thesis by (simp add: e set_Array_sort)
qed

text \<open>
  Sorted by rarity, the sorted array and every page rise along the enumeration normal,
  rare, super_rare, hidden, sp (and fall along it when the order is descending), so a
  record of rarity hidden stands after every record of rarity rare, although the string
  \<open>hidden\<close> is smaller than the string \<open>rare\<close>.
\<close>

lemma rarity_sort_follows_enumeration:
  fixes toLowerCase getTime productsData params h
  assumes r: "sortBy params = Some By_rarity"
  defines "S \<equiv> sortedArray toLowerCase getTime productsData params h"
  defines "rank \<equiv> (\<lambda>p :: Product. enumerationRank (rarityLevel p))"
  shows "sortOrder params \<noteq> Some Desc \<Longrightarrow> sorted (map rank S)"
    and "sortOrder params \<noteq> Some Desc \<Longrightarrow>
           sorted (map rank (products (fst (getProducts toLowerCase getTime productsData params h))))"
    and "sortOrder params = Some Desc \<Longrightarrow> sorted (rev (map rank S))"
proof -
  define F where "F = filter (matches toLowerCase params) (h ! productsData)"
  define cmp where "cmp = comparator toLowerCase getTime params"
  have S: "S = Array_sort cmp F" by (simp add: S_def cmp_def F_def sortedArray_eq)
  have v: "sortValue toLowerCase getTime By_rarity p = NumVal (Num (real (rank p) + 1))" for p
    by (simp add: sortValue_def rank_def rarityOrder_enumerationRank)
  show asc: "sorted (map rank S)" if "sortOrder params \<noteq> Some Desc"
  proof -
    have "(case sortOrder params of None \<Rightarrow> Asc | Some s \<Rightarrow> s) = Asc"
      using that by (cases "sortOrder params") (auto intro: SortOrder.exhaust)
    then have c: "cmp = compareFn toLowerCase getTime By_rarity Asc"
      using r by (simp add: cmp_def comparator_def)
    have "\<forall>a \<in> set F. \<forall>b \<in> set F. (cmp a b < 0) = (rank a < rank b)"
      by (simp add: c compareFn_numeric(1) [OF v v])
    from Array_sort_consistent [OF this] show ?thesis unfolding S by blast
  qed
  show "sorted (map rank (products (fst (getProducts toLowerCase getTime productsData params h))))"
    if "sortOrder params \<noteq> Some Desc"
    using asc [OF that] by (simp add: getProducts_fst Let_def S_def [symmetric] sorted_slice)
  show "sorted (rev (map rank S))" if "sortOrder params = Some Desc"
  proof -
    have c: "cmp = compareFn toLowerCase getTime By_rarity Desc"
      using r that by (simp add: cmp_def comparator_def)
    have "\<forall>a \<in> set F. \<forall>b \<in> set F. (cmp a b < 0) = (Down (rank a) < Down (rank b))"
      by (simp add: c compareFn_numeric(1) [OF v v] less_down_def)
    from Array_sort_consistent [OF this] have "sorted (map (\<lambda>p. Down (rank p)) S)"
      unfolding S by blast
    then show ?thesis by (rule sorted_down_rev)
  qed
qed

text \<open>
  When the sort key is not the release date, or every release date of the collection
  parses, the sort is stable: the records that the comparator puts level with a record
  of the sorted array stand in the sorted array in the order they have in the collection.
\<close>

lemma sort_stable_when_dates_parse:
  assumes d: "sortBy params = Some By_release_date \<Longrightarrow>
                \<forall>p \<in> set (h ! productsData). \<exists>r. getTime (releaseDate p) = Num r"
      and a: "a \<in> set (sortedArray toLowerCase getTime productsData params h)"
  shows "filter (\<lambda>x. comparator toLowerCase getTime params a x = 0)
           (sortedArray toLowerCase getTime productsData params h)
       = filter (\<lambda>x. comparator toLowerCase getTime params a x = 0)
           (filter (matches toLowerCase params) (h ! productsData))"
proof -
  define F where "F = filter (matches toLowerCase params) (h ! productsData)"
  define sb where "sb = (case sortBy params of None \<Rightarrow> By_name | Some s \<Rightarrow> s)"
  define so where "so = (case sortOrder params of None \<Rightarrow> Asc | Some s \<Rightarrow> s)"
  define cmp where "cmp = compareFn toLowerCase getTime sb so"
  have cmp: "comparator toLowerCase getTime params = cmp"
    by (simp add: comparator_def cmp_def sb_def so_def)
  have S: "sortedArray toLowerCase getTime productsData params h = Array_sort cmp F"
    by (simp add: cmp F_def sortedArray_eq)
  have aF: "a \<in> set F" using a by (simp add: S set_Array_sort)
  have "filter (\<lambda>x. cmp a x = 0) (Array_sort cmp F) = filter (\<lambda>x. cmp a x = 0) F"
  proof (cases "sb = By_name")
    case True
    define str where "str = (\<lambda>p :: Product. toLowerCase (name p))"
    have v: "sortValue toLowerCase getTime sb p = StrVal (str p)" for p
      by (simp add: True sortValue_def str_def)
    have z: "\<forall>a \<in> set F. \<forall>b \<in> set F. (cmp a b = 0) = (str a = str b)"
      by (simp add: cmp_def compareFn_string(2) [OF v v])
    show ?thesis
    proof (cases "so = Asc")
      case True
      have "\<forall>a \<in> set F. \<forall>b \<in> set F. (cmp a b < 0) = (str a < str b)"
        by (simp add: cmp_def True compareFn_string(1) [OF v v])
      from Array_sort_keeps_level [OF this z aF] show ?thesis .
    next
      case False
      have c: "\<forall>a \<in> set F. \<forall>b \<in> set F. (cmp a b < 0) = (Down (str a) < Down (str b))"
        by (simp add: cmp_def False compareFn_string(1) [OF v v] less_down_def)
      have z': "\<forall>a \<in> set F. \<forall>b \<in> set F. (cmp a b = 0) = (Down (str a) = Down (str b))"
        using z by simp
      from Array_sort_keeps_level [OF c z' aF] show ?thesis .
    qed
  next
    case False
    define num where "num = (\<lambda>p :: Product. case sortValue toLowerCase getTime sb p of
        NumVal (Num r) \<Rightarrow> r | _ \<Rightarrow> 0)"
    have v: "sortValue toLowerCase getTime sb p = NumVal (Num (num p))" if "p \<in> set F" for p
    proof (cases sb)
      case By_name
      then show ?thesis using False by simp
    next
      case By_price
      then show ?thesis by (simp add: sortValue_def num_def)
    next
      case By_rarity
      then show ?thesis by (simp add: sortValue_def num_def)
    next
      case By_release_date
      then have "sortBy params = Some By_release_date"
        by (simp add: sb_def split: option.splits)
      from d [OF this] that obtain r where "getTime (releaseDate p) = Num r"
        by (auto simp add: F_def)
      then show ?thesis by (simp add: By_release_date sortValue_def num_def)
    qed
    have z: "\<forall>a \<in> set F. \<forall>b \<in> set F. (cmp a b = 0) = (num a = num b)"
      by (simp add: cmp_def compareFn_numeric(2) [OF v v])
    show ?thesis
    proof (cases "so = Asc")
      case True
      have "\<forall>a \<in> set F. \<forall>b \<in> set F. (cmp a b < 0) = (num a < num b)"
        by (simp add: cmp_def True compareFn_numeric(1) [OF v v])
      from Array_sort_keeps_level [OF this z aF] show ?thesis .
    next
      case False
      have c: "\<forall>a \<in> set F. \<forall>b \<in> set F. (cmp a b < 0) = (- num a < - num b)"
        by (simp add: cmp_def False compareFn_numeric(1) [OF v v])
      have z': "\<forall>a \<in> set F. \<forall>b \<in> set F. (cmp a b = 0) = (- num a = - num b)"
        using z by simp
      from Array_sort_keeps_level [OF c z' aF] show ?thesis .
    qed
  qed
  then show ?thesis by (simp add: S cmp F_def)
qed

text \<open>
  At the collection \<open>p3, p1, p2\<close> of rarities hidden, rare, normal, the array sorted by
  rarity is \<open>p2, p1, p3\<close>: the rare record stands before the hidden one, although
  the name of the rarity of \<open>p3\<close> is the smaller string.
\<close>

lemma rarity_sort_sample:
  "sortedArray asciiLower noDate 0 rarityRequest [[p3, p1, p2]] = [p2, p1, p3]
   \<and> rarityLevel p3 = Hidden \<and> rarityLevel p1 = Rare
   \<and> rarityName (rarityLevel p3) < rarityName (rarityLevel p1)"
  by (simp add: sortedArray_eq matches_def comparator_def rarityRequest_def request_def
      trim_truthy_def compareFn_def sortValue_def p1_def p2_def p3_def sample_def
      Array_sort_def binaryInsert_def binarySearch_Cons Let_def)

text \<open>
  Claim C5 says that, for every sort key, records that compare equal keep the order they
  had before the sort. With the sort key \<open>release_date\<close> the key of a record whose
  release date does not parse is \<open>NaN\<close>; lines 104 to 106 of \<open>getProducts\<close> compare
  it with \<open><\<close> and \<open>>\<close> only, so the comparator returns 0 for it against every
  record, while the other records are ordered among themselves. At the collection
  \<open>qa, qb, qx, qc\<close>, sorted by release date in ascending order, the comparator puts
  \<open>qx\<close> and \<open>qc\<close> level, in both directions, and \<open>qx\<close> stands before \<open>qc\<close> in the
  collection; the page returned is \<open>qc, qb, qa, qx\<close>, where \<open>qc\<close> stands before
  \<open>qx\<close>. \<open>sort_stable_when_dates_parse\<close> above shows that the order of level
  records is kept for the other three sort keys, and for the release date when every
  release date parses; \<open>rarity_sort_follows_enumeration\<close> shows that the sort by
  rarity follows the enumeration.
\<close>

theorem unparsable_date_breaks_stability:
  "products (fst (getProducts asciiLower sampleTime 0 dateRequest [[qa, qb, qx, qc]]))
     = [qc, qb, qa, qx]
   \<and> comparator asciiLower sampleTime dateRequest qx qc = 0
   \<and> comparator asciiLower sampleTime dateRequest qc qx = 0
   \<and> sampleTime (releaseDate qx) = NaN"
proof -
  have t: "sampleTime (releaseDate qa) = Num 1709251200000"
    "sampleTime (releaseDate qb) = Num 1706745600000"
    "sampleTime (releaseDate qx) = NaN"
    "sampleTime (releaseDate qc) = Num 1704067200000"
    by (simp_all add: sampleTime_def qa_def qb_def qx_def qc_def date_2024_01_01_def
        date_2024_02_01_def date_2024_03_01_def date_TBD_def)
  have c: "comparator asciiLower sampleTime dateRequest a b =
      (if js_less (sampleTime (releaseDate a)) (sampleTime (releaseDate b)) then - 1
       else if js_less (sampleTime (releaseDate b)) (sampleTime (releaseDate a)) then 1 else 0)" for a b
    by (simp add: comparator_def dateRequest_def request_def compareFn_def sortValue_def Let_def)
  have m: "filter (matches asciiLower dateRequest) ([[qa, qb, qx, qc]] ! 0) = [qa, qb, qx, qc]"
    by (simp add: matches_def dateRequest_def request_def trim_truthy_def)
  have s: "Array_sort (comparator asciiLower sampleTime dateRequest) [qa, qb, qx, qc] = [qc, qb, qa, qx]"
    by (simp add: Array_sort_def binaryInsert_def binarySearch_Cons Let_def c t)
  have l: "limit dateRequest = None" "page dateRequest = None"
    by (simp_all add: dateRequest_def request_def)
  have S: "sortedArray asciiLower sampleTime 0 dateRequest [[qa, qb, qx, qc]] = [qc, qb, qa, qx]"
    unfolding sortedArray_eq m s ..
  have P: "products (fst (getProducts asciiLower sampleTime 0 dateRequest [[qa, qb, qx, qc]]))
     = [qc, qb, qa, qx]"
    unfolding getProducts_fst S by (simp add: l Array_slice_def)
  show ?thesis using P by (simp add: c t)
qed

subsection \<open>The collection is not changed\<close>

text \<open>
  Claim C10. A query leaves the array at \<open>productsData\<close>, and every array that was in
  the store before it, as it was: \<open>getProducts\<close> sorts the copy it made, never the
  collection. A second query with the same request, run on the store the first one left,
  returns the same response (the same records in the same order, the same \<open>total\<close>, page
  and \<open>totalPages\<close>) and again leaves the collection as it was.
\<close>

theorem query_leaves_collection_unchanged:
  assumes "productsData < length h"
  shows "let r1 = getProducts toLowerCase getTime productsData params h;
             r2 = getProducts toLowerCase getTime productsData params (snd r1)
         in snd r1 ! productsData = h ! productsData
          \<and> (\<forall>a < length h. snd r1 ! a = h ! a)
          \<and> fst r2 = fst r1
          \<and> snd r2 ! productsData = h ! productsData"
proof -
  define h1 where "h1 = snd (getProducts toLowerCase getTime productsData params h)"
  define h2 where "h2 = snd (getProducts toLowerCase getTime productsData params h1)"
  have t1: "take (length h) h1 = h" unfolding h1_def by (rule getProducts_frame)
  have t2: "take (length h1) h2 = h1" unfolding h2_def by (rule getProducts_frame)
  have len: "length h \<le> length h1" using t1 by (metis length_take min.cobounded2 min.commute)
  have a1: "h1 ! a = h ! a" if "a < length h" for a
    using that t1 by (metis nth_take)
  have a2: "h2 ! a = h1 ! a" if "a < length h1" for a
    using that t2 by (metis nth_take)
  have c1: "h1 ! productsData = h ! productsData" using a1 assms by simp
  have c2: "h2 ! productsData = h ! productsData" using a2 [of productsData] c1 assms len by simp
  have r: "fst (getProducts toLowerCase getTime productsData params h1)
         = fst (getProducts toLowerCase getTime productsData params h)"
    by (simp add: getProducts_fst sortedArray_eq c1)
  show ?thesis
    unfolding Let_def h1_def [symmetric] h2_def [symmetric]
    using c1 a1 r c2 by (simp add: h2_def)
qed

text \<open>
  Claim C10, at three products that the sort by price reorders: the collection is still
  \<open>p1, p2, p3\<close> after the query, and the query run again returns the same response.
\<close>

theorem query_leaves_collection_unchanged_witness:
  "snd (getProducts asciiLower noDate 0 priceRequest [[p1, p2, p3]]) ! 0 = [p1, p2, p3]
   \<and> fst (getProducts asciiLower noDate 0 priceRequest
            (snd (getProducts asciiLower noDate 0 priceRequest [[p1, p2, p3]])))
     = fst (getProducts asciiLower noDate 0 priceRequest [[p1, p2, p3]])"
proof -
  have l: "0 < length [[p1, p2, p3]]" by simp
  show ?thesis
    using query_leaves_collection_unchanged [OF l, of asciiLower noDate priceRequest]
    by (simp add: Let_def)
qed

subsection \<open>Lookup by identifier\<close>

text \<open>
  Claim C8 says that a lookup of an absent identifier yields a not-found value rather than
  an exception. \<open>getProductById\<close> throws: here for the identifier \<open>p3\<close> in the
  collection \<open>p1, p2\<close>.
\<close>

theorem lookup_absent_throws_counterexample:
  "getProductById [p1, p2] [112, 51] = Throws Error_product_not_found"
  by (simp add: getProductById_def p1_def p2_def sample_def)

lemma slice_first_four: "Array_slice 0 4 xs = take 4 xs"
  by (simp add: Array_slice_def Let_def min_def)

text \<open>
  Claim C8, as the code has it. When some record of the collection has the identifier,
  \<open>getProductById\<close> returns the first such record, with the first four other records
  of its series as related products. When none has, it throws the error "product not
  found"; no value is returned. (The route that serves a product catches the error and
  answers 404.)
\<close>

theorem lookup_by_identifier:
  "(ident \<in> productId ` set coll \<longrightarrow>
      (\<exists>found. find (\<lambda>p. productId p = ident) coll = Some found \<and> productId found = ident
         \<and> getProductById coll ident =
             Returns \<lparr>product = found,
                      relatedProducts =
                        take 4 (filter (\<lambda>p. series p = series found \<and> productId p \<noteq> ident) coll)\<rparr>))
   \<and> (ident \<notin> productId ` set coll \<longrightarrow> getProductById coll ident = Throws Error_product_not_found)"
proof -
  have a: "getProductById coll ident = Throws Error_product_not_found" if "ident \<notin> productId ` set coll"
  proof -
    have "find (\<lambda>p. productId p = ident) coll = None"
      using that by (auto simp add: find_None_iff)
    then show ?thesis by (simp add: getProductById_def)
  qed
  have b: "\<exists>found. find (\<lambda>p. productId p = ident) coll = Some found \<and> productId found = ident
         \<and> getProductById coll ident =
             Returns \<lparr>product = found,
                      relatedProducts =
                        take 4 (filter (\<lambda>p. series p = series found \<and> productId p \<noteq> ident) coll)\<rparr>"
    if mem: "ident \<in> productId ` set coll"
  proof -
    have "find (\<lambda>p. productId p = ident) coll \<noteq> None"
      using mem by (auto simp add: find_None_iff)
    then obtain x where x: "find (\<lambda>p. productId p = ident) coll = Some x"
      by blast
    then have "productId x = ident" by (auto simp add: find_Some_iff)
    then show ?thesis using x by (simp add: getProductById_def slice_first_four)
  qed
  show ?thesis using a b by blast
qed

text \<open>
  Claim C8, at the collection \<open>p1, p2\<close>: the identifier \<open>p2\<close> is found, with \<open>p1\<close> as
  its related product, and the lookup of \<open>p3\<close> throws.
\<close>

theorem lookup_by_identifier_witness:
  "getProductById [p1, p2] [112, 50] = Returns \<lparr>product = p2, relatedProducts = [p1]\<rparr>
   \<and> getProductById [p1, p2] [112, 51] = Throws Error_product_not_found"
proof -
  have i: "[112, 50] \<in> productId ` set [p1, p2]" and n: "[112, 51] \<notin> productId ` set [p1, p2]"
    by (simp_all add: p1_def p2_def sample_def)
  have "getProductById [p1, p2] [112, 51] = Throws Error_product_not_found"
    using lookup_by_identifier [of "[112, 51]" "[p1, p2]"] n by blast
  moreover have "\<exists>found. find (\<lambda>p. productId p = [112, 50]) [p1, p2] = Some found"
    using lookup_by_identifier [of "[112, 50]" "[p1, p2]"] i by blast
  ultimately show ?thesis
    by (simp add: getProductById_def p1_def p2_def sample_def Array_slice_def)
qed

section \<open>Properties of the batch mutation engine\<close>

subsection \<open>The loop over the product files\<close>

lemma processFile_files:
  "fst (processFile F f p (fs, rep)) = fs(p := shardResult F f p (fs p))"
  by (auto simp add: processFile_def readProductFile_def writeProductFile_def shardResult_def
      split: option.splits content.splits outcome.splits wfault.splits)

lemma processFile_report:
  "snd (processFile F f p (fs, rep)) =
     (if succeeds F f p (fs p)
      then rep\<lparr>updated := updated rep @ [p],
               totalProducts := totalProducts rep +
                 (case fs p of Some (Records ps) \<Rightarrow> length ps | _ \<Rightarrow> 0)\<rparr>
      else rep\<lparr>failed := failed rep @ [p]\<rparr>)"
  by (auto simp add: processFile_def readProductFile_def writeProductFile_def succeeds_def
      split: option.splits content.splits outcome.splits wfault.splits)

lemma forEachFile_distinct:
  "distinct pf \<Longrightarrow>
   fst (forEachFile F f pf (fs, rep)) =
     (\<lambda>q. if q \<in> set pf then shardResult F f q (fs q) else fs q)"
proof (induction pf arbitrary: fs rep)
  case Nil
  then show ?case by simp
next
  case (Cons p pf)
  obtain fs' rep' where st: "processFile F f p (fs, rep) = (fs', rep')" by fastforce
  have fs': "fs' = fs(p := shardResult F f p (fs p))"
    using processFile_files [of F f p fs rep] st by simp
  have "fst (forEachFile F f pf (fs', rep')) =
     (\<lambda>q. if q \<in> set pf then shardResult F f q (fs' q) else fs' q)"
    using Cons by simp
  then show ?case using Cons.prems by (auto simp add: st fs')
qed

lemma forEachFile_idem:
  assumes "\<And>p c. shardResult F f p (shardResult F f p c) = shardResult F f p c"
  shows "fst (forEachFile F f pf (fs, rep)) =
     (\<lambda>q. if q \<in> set pf then shardResult F f q (fs q) else fs q)"
proof (induction pf arbitrary: fs rep)
  case Nil
  then show ?case by simp
next
  case (Cons p pf)
  obtain fs' rep' where st: "processFile F f p (fs, rep) = (fs', rep')" by fastforce
  have fs': "fs' = fs(p := shardResult F f p (fs p))"
    using processFile_files [of F f p fs rep] st by simp
  have "fst (forEachFile F f pf (fs', rep')) =
     (\<lambda>q. if q \<in> set pf then shardResult F f q (fs' q) else fs' q)"
    using Cons by simp
  then show ?case using assms by (auto simp add: st fs')
qed

lemma forEachFile_report:
  "distinct pf \<Longrightarrow>
   updated (snd (forEachFile F f pf (fs, rep))) =
     updated rep @ filter (\<lambda>p. succeeds F f p (fs p)) pf
   \<and> failed (snd (forEachFile F f pf (fs, rep))) =
     failed rep @ filter (\<lambda>p. \<not> succeeds F f p (fs p)) pf"
proof (induction pf arbitrary: fs rep)
  case Nil
  then show ?case by simp
next
  case (Cons p pf)
  obtain fs' rep' where st: "processFile F f p (fs, rep) = (fs', rep')" by fastforce
  have fs': "fs' = fs(p := shardResult F f p (fs p))"
    using processFile_files [of F f p fs rep] st by simp
  have rep': "rep' = (if succeeds F f p (fs p)
      then rep\<lparr>updated := updated rep @ [p],
               totalProducts := totalProducts rep +
                 (case fs p of Some (Records ps) \<Rightarrow> length ps | _ \<Rightarrow> 0)\<rparr>
      else rep\<lparr>failed := failed rep @ [p]\<rparr>)"
    using processFile_report [of F f p fs rep] st by simp
  have same: "filter (\<lambda>q. succeeds F f q (fs' q)) pf = filter (\<lambda>q. succeeds F f q (fs q)) pf"
    "filter (\<lambda>q. \<not> succeeds F f q (fs' q)) pf = filter (\<lambda>q. \<not> succeeds F f q (fs q)) pf"
    using Cons.prems by (auto simp add: fs' intro!: filter_cong)
  have "updated (snd (forEachFile F f pf (fs', rep'))) =
     updated rep' @ filter (\<lambda>p. succeeds F f p (fs' p)) pf
   \<and> failed (snd (forEachFile F f pf (fs', rep'))) =
     failed rep' @ filter (\<lambda>p. \<not> succeeds F f p (fs' p)) pf"
    using Cons by simp
  then show ?case by (simp add: st same rep')
qed

subsection \<open>The backup\<close>

lemma copyFiles_ok:
  "copyFiles F fs ps dir = (True, dir') \<Longrightarrow>
   (\<forall>p \<in> set ps. fs p \<noteq> None \<and> dir' p = fs p) \<and> (\<forall>q. q \<notin> set ps \<longrightarrow> dir' q = dir q)"
proof (induction ps arbitrary: dir)
  case Nil
  then show ?case by simp
next
  case (Cons p ps)
  from Cons.prems obtain c where c: "fs p = Some c" and nf: "p \<notin> copy_fails F"
    and rest: "copyFiles F fs ps (dir(p \<mapsto> c)) = (True, dir')"
    by (auto split: if_splits option.splits)
  from Cons.IH [OF rest] have ih: "\<forall>q\<in>set ps. fs q \<noteq> None \<and> dir' q = fs q"
    "\<forall>q. q \<notin> set ps \<longrightarrow> dir' q = (dir(p \<mapsto> c)) q" by blast+
  show ?case
  proof (cases "p \<in> set ps")
    case True
    then show ?thesis using ih c by auto
  next
    case False
    then show ?thesis using ih c by auto
  qed
qed

lemma createBackup_files: "files (snd (createBackup F ts pf s)) = files s"
  by (simp add: createBackup_def Let_def split: prod.splits)

lemma createBackup_Returns:
  assumes "createBackup F ts pf s = (Returns t, s')"
  shows "files s' = files s \<and>
         (\<exists>dir. backups s' ts = Some dir \<and> (\<forall>p \<in> set pf. files s p \<noteq> None \<and> dir p = files s p))"
proof -
  from assms have m: "\<not> mkdir_fails F" by (auto simp add: createBackup_def split: if_splits)
  obtain ok dir where cp: "copyFiles F (files s) pf
      (case backups s ts of None \<Rightarrow> Map.empty | Some d \<Rightarrow> d) = (ok, dir)" by fastforce
  from assms m cp have ok: "ok" and s': "s' = s\<lparr>backups := (backups s)(ts \<mapsto> dir)\<rparr>"
    by (auto simp add: createBackup_def Let_def split: if_splits)
  from cp ok have "copyFiles F (files s) pf
      (case backups s ts of None \<Rightarrow> Map.empty | Some d \<Rightarrow> d) = (True, dir)" by simp
  from copyFiles_ok [OF this]
  have "\<forall>p \<in> set pf. files s p \<noteq> None \<and> dir p = files s p" by blast
  then show ?thesis by (simp add: s')
qed

lemma mutateAll_Throws:
  assumes "fst (createBackup F ts pf s) = Throws e"
  shows "fst (mutateAll F ts pf f s) = Throws e \<and> files (snd (mutateAll F ts pf f s)) = files s"
proof -
  obtain s' where c: "createBackup F ts pf s = (Throws e, s')" using assms by (cases "createBackup F ts pf s") auto
  have "files s' = files s" using createBackup_files [of F ts pf s] c by simp
  then show ?thesis by (simp add: mutateAll_def c)
qed

lemma mutateAll_Returns:
  assumes "fst (mutateAll F ts pf f s) = Returns rep"
  shows "\<exists>t s'. createBackup F ts pf s = (Returns t, s') \<and>
           forEachFile F f pf (files s, \<lparr>updated = [], failed = [], totalProducts = 0\<rparr>)
             = (files (snd (mutateAll F ts pf f s)), rep) \<and>
           backups (snd (mutateAll F ts pf f s)) = backups s'"
proof -
  obtain r s' where c: "createBackup F ts pf s = (r, s')" by fastforce
  show ?thesis
  proof (cases r)
    case (Throws e)
    then show ?thesis using assms c by (simp add: mutateAll_def)
  next
    case (Returns t)
    have fs: "files s' = files s" using createBackup_files [of F ts pf s] c by simp
    show ?thesis using assms c Returns fs
      by (auto simp add: mutateAll_def split: prod.splits)
  qed
qed

subsection \<open>A failing shard\<close>

text \<open>
  Claim C1 says that after the first failed write no further shard is written. With two
  product files of which the write of the first fails, \<open>addField\<close> goes on and rewrites
  the second: the second file holds the new field, and the run reports one file processed
  and one failed.
\<close>

theorem later_shard_written_after_failure_counterexample:
  "write_faults write_of_a_fails ''a.json'' = Some Untouched
   \<and> files (snd (addField write_of_a_fails ''t1'' [''a.json'', ''b.json''] ''tag'' (JStr ''new'') store2)) ''b.json''
       = Some (Records [[(''id'', JStr ''p2''), (''price'', JNum 50), (''rarity'', JStr ''normal''),
                         (''tag'', JStr ''new'')]])
   \<and> files store2 ''b.json''
       = Some (Records [[(''id'', JStr ''p2''), (''price'', JNum 50), (''rarity'', JStr ''normal'')]])
   \<and> fst (addField write_of_a_fails ''t1'' [''a.json'', ''b.json''] ''tag'' (JStr ''new'') store2)
       = Returns \<lparr>updated = [''b.json''], failed = [''a.json''], totalProducts = 1\<rparr>"
  by (simp add: addField_def mutateAll_def createBackup_def processFile_def readProductFile_def
      writeProductFile_def addField_product_def hasOwnProperty_def store2_def write_of_a_fails_def
      no_faults_def Let_def)

lemma mutateAll_continues:
  assumes d: "distinct pf" and r: "fst (mutateAll F ts pf f s) = Returns rep"
  shows "(\<forall>p \<in> set pf. \<forall>ps qs. p \<notin> read_fails F \<and> write_faults F p = None
            \<and> files s p = Some (Records ps) \<and> mapProducts f ps = Returns qs
            \<longrightarrow> files (snd (mutateAll F ts pf f s)) p = Some (Records qs))
       \<and> (\<forall>p. p \<notin> set pf \<or> \<not> succeeds F f p (files s p) \<longrightarrow>
            files (snd (mutateAll F ts pf f s)) p = files s p
            \<or> (\<exists>c. write_faults F p = Some (Clobbered c) \<and> files (snd (mutateAll F ts pf f s)) p = Some c))
       \<and> updated rep = filter (\<lambda>p. succeeds F f p (files s p)) pf
       \<and> failed rep = filter (\<lambda>p. \<not> succeeds F f p (files s p)) pf
       \<and> (\<exists>dir. backups (snd (mutateAll F ts pf f s)) ts = Some dir
            \<and> (\<forall>p \<in> set pf. files s p \<noteq> None \<and> dir p = files s p))"
proof -
  let ?s' = "snd (mutateAll F ts pf f s)"
  let ?r0 = "\<lparr>updated = [], failed = [], totalProducts = 0\<rparr>"
  from mutateAll_Returns [OF r] obtain t s1 where
    cb: "createBackup F ts pf s = (Returns t, s1)" and
    fe: "forEachFile F f pf (files s, ?r0) = (files ?s', rep)" and
    bk: "backups ?s' = backups s1" by blast
  have fl: "files ?s' = (\<lambda>q. if q \<in> set pf then shardResult F f q (files s q) else files s q)"
    using forEachFile_distinct [OF d, of F f "files s" ?r0] fe by simp
  have rp: "updated rep = filter (\<lambda>p. succeeds F f p (files s p)) pf"
    "failed rep = filter (\<lambda>p. \<not> succeeds F f p (files s p)) pf"
    using forEachFile_report [OF d, of F f "files s" ?r0] fe by simp_all
  have a: "files ?s' p = Some (Records qs)"
    if "p \<in> set pf" "p \<notin> read_fails F" "write_faults F p = None"
      "files s p = Some (Records ps)" "mapProducts f ps = Returns qs" for p ps qs
    using that by (simp add: fl shardResult_def)
  have b: "files ?s' p = files s p
      \<or> (\<exists>c. write_faults F p = Some (Clobbered c) \<and> files ?s' p = Some c)"
    if "p \<notin> set pf \<or> \<not> succeeds F f p (files s p)" for p
    using that by (auto simp add: fl shardResult_def succeeds_def
        split: option.splits content.splits outcome.splits wfault.splits)
  from createBackup_Returns [OF cb] bk
  have c: "\<exists>dir. backups ?s' ts = Some dir \<and> (\<forall>p \<in> set pf. files s p \<noteq> None \<and> dir p = files s p)"
    by simp
  show ?thesis using a b c rp by blast
qed

text \<open>
  Claim C1, as the code has it. \<open>addField\<close>, \<open>renameField\<close>, \<open>updateField\<close> and
  \<open>removeField\<close> catch an exception inside the loop, per file, and go on with the next
  file; nothing is rolled back. For distinct product files and a run that got past the
  backup: every file that can be read, mapped and written holds its updated records
  afterwards, wherever it stands in the list and whatever happened to the files before it;
  a file whose processing fails, and every file not in the list, is as it was, unless the
  failed write itself left other content behind; the run reports exactly the files
  that succeeded as processed and the others as failed; and the snapshot of the run holds
  every product file as it was before the run.
\<close>

theorem mutation_continues_past_failed_shard:
  assumes "distinct productFiles"
  shows "\<forall>run \<in> {(addField F ts productFiles fieldName defaultValue,
                    addField_product fieldName defaultValue),
                   (renameField F ts productFiles oldFieldName newFieldName,
                    renameField_product oldFieldName newFieldName),
                   (updateField F ts productFiles fieldName updater,
                    updateField_product fieldName updater),
                   (removeField F ts productFiles fieldName,
                    removeField_product fieldName)}.
           case run of (operation, f) \<Rightarrow>
             (\<forall>rep. fst (operation s) = Returns rep \<longrightarrow>
                (\<forall>p \<in> set productFiles. \<forall>ps qs. p \<notin> read_fails F \<and> write_faults F p = None
                    \<and> files s p = Some (Records ps) \<and> mapProducts f ps = Returns qs
                    \<longrightarrow> files (snd (operation s)) p = Some (Records qs))
              \<and> (\<forall>p. p \<notin> set productFiles \<or> \<not> succeeds F f p (files s p) \<longrightarrow>
                    files (snd (operation s)) p = files s p
                    \<or> (\<exists>c. write_faults F p = Some (Clobbered c) \<and> files (snd (operation s)) p = Some c))
              \<and> updated rep = filter (\<lambda>p. succeeds F f p (files s p)) productFiles
              \<and> failed rep = filter (\<lambda>p. \<not> succeeds F f p (files s p)) productFiles
              \<and> (\<exists>dir. backups (snd (operation s)) ts = Some dir
                    \<and> (\<forall>p \<in> set productFiles. files s p \<noteq> None \<and> dir p = files s p)))"
  using mutateAll_continues [OF assms, of F ts]
  unfolding addField_def renameField_def updateField_def removeField_def
  by (simp only: ball_simps prod.case) blast

text \<open>
  Claim C1, as the code has it, at the two-file store with a failing write of the first
  file: the second file is updated and reported, the first is reported as failed, and the
  snapshot holds both files as they were.
\<close>

theorem mutation_continues_past_failed_shard_witness:
  "distinct [''a.json'', ''b.json'']
   \<and> fst (addField write_of_a_fails ''t1'' [''a.json'', ''b.json''] ''tag'' (JStr ''new'') store2)
       = Returns \<lparr>updated = [''b.json''], failed = [''a.json''], totalProducts = 1\<rparr>
   \<and> files (snd (addField write_of_a_fails ''t1'' [''a.json'', ''b.json''] ''tag'' (JStr ''new'') store2)) ''b.json''
       = Some (Records [[(''id'', JStr ''p2''), (''price'', JNum 50), (''rarity'', JStr ''normal''),
                         (''tag'', JStr ''new'')]])
   \<and> map_option (\<lambda>dir. (dir ''a.json'', dir ''b.json''))
        (backups (snd (addField write_of_a_fails ''t1'' [''a.json'', ''b.json''] ''tag'' (JStr ''new'') store2)) ''t1'')
       = Some (files store2 ''a.json'', files store2 ''b.json'')"
proof -
  let ?op = "addField write_of_a_fails ''t1'' [''a.json'', ''b.json''] ''tag'' (JStr ''new'')"
  let ?f = "addField_product ''tag'' (JStr ''new'')"
  have d: "distinct [''a.json'', ''b.json'']" by simp
  have r: "fst (?op store2) = Returns \<lparr>updated = [''b.json''], failed = [''a.json''], totalProducts = 1\<rparr>"
    by (simp add: addField_def mutateAll_def createBackup_def processFile_def readProductFile_def
      writeProductFile_def addField_product_def hasOwnProperty_def store2_def write_of_a_fails_def
      no_faults_def Let_def)
  have m: "(?op, ?f) \<in> {(addField write_of_a_fails ''t1'' [''a.json'', ''b.json''] ''tag'' (JStr ''new''),
                    addField_product ''tag'' (JStr ''new'')),
                   (renameField write_of_a_fails ''t1'' [''a.json'', ''b.json''] ''tag'' ''label'',
                    renameField_product ''tag'' ''label''),
                   (updateField write_of_a_fails ''t1'' [''a.json'', ''b.json''] ''tag'' (\<lambda>v obj. Returns v),
                    updateField_product ''tag'' (\<lambda>v obj. Returns v)),
                   (removeField write_of_a_fails ''t1'' [''a.json'', ''b.json''] ''tag'',
                    removeField_product ''tag'')}" by simp
  note th = mutation_continues_past_failed_shard [OF d, of write_of_a_fails "''t1''" "''tag''" "JStr ''new''"
        "''tag''" "''label''" "\<lambda>v obj. Returns v" store2]
  from bspec [OF th m] r
  have w: "(\<forall>p \<in> set [''a.json'', ''b.json'']. \<forall>ps qs. p \<notin> read_fails write_of_a_fails
              \<and> write_faults write_of_a_fails p = None
              \<and> files store2 p = Some (Records ps) \<and> mapProducts ?f ps = Returns qs
              \<longrightarrow> files (snd (?op store2)) p = Some (Records qs))
     \<and> (\<exists>dir. backups (snd (?op store2)) ''t1'' = Some dir
              \<and> (\<forall>p \<in> set [''a.json'', ''b.json'']. files store2 p \<noteq> None \<and> dir p = files store2 p))"
    by (simp only: prod.case) blast
  have b: "''b.json'' \<in> set [''a.json'', ''b.json'']" "''b.json'' \<notin> read_fails write_of_a_fails"
    "write_faults write_of_a_fails ''b.json'' = None"
    "files store2 ''b.json'' = Some (Records [[(''id'', JStr ''p2''), (''price'', JNum 50), (''rarity'', JStr ''normal'')]])"
    "mapProducts ?f [[(''id'', JStr ''p2''), (''price'', JNum 50), (''rarity'', JStr ''normal'')]]
       = Returns [[(''id'', JStr ''p2''), (''price'', JNum 50), (''rarity'', JStr ''normal''), (''tag'', JStr ''new'')]]"
    by (simp_all add: write_of_a_fails_def no_faults_def store2_def addField_product_def hasOwnProperty_def)
  have c: "files (snd (?op store2)) ''b.json''
       = Some (Records [[(''id'', JStr ''p2''), (''price'', JNum 50), (''rarity'', JStr ''normal''),
                         (''tag'', JStr ''new'')]])"
    using w b by blast
  from w obtain dir where "backups (snd (?op store2)) ''t1'' = Some dir"
    "dir ''a.json'' = files store2 ''a.json''" "dir ''b.json'' = files store2 ''b.json''"
    by auto
  then have k: "map_option (\<lambda>dir. (dir ''a.json'', dir ''b.json'')) (backups (snd (?op store2)) ''t1'')
       = Some (files store2 ''a.json'', files store2 ''b.json'')" by simp
  show ?thesis using d r c k by blast
qed

subsection \<open>The backup comes first\<close>

text \<open>
  Claim C2. For each of the four operations: when \<open>createBackup\<close> throws, the operation
  throws the same exception and every product file is as it was; when the operation
  returns, the snapshot named by its time stamp holds every product file with the
  content the file had before the operation; so whenever a product file has changed, that
  complete snapshot exists.
\<close>

theorem backup_precedes_every_write:
  "\<forall>operation \<in> {addField F ts productFiles fieldName defaultValue,
                   renameField F ts productFiles oldFieldName newFieldName,
                   updateField F ts productFiles fieldName updater,
                   removeField F ts productFiles fieldName}.
       (\<forall>e. fst (createBackup F ts productFiles s) = Throws e \<longrightarrow>
            fst (operation s) = Throws e \<and> files (snd (operation s)) = files s)
     \<and> (\<forall>rep. fst (operation s) = Returns rep \<longrightarrow>
            (\<exists>dir. backups (snd (operation s)) ts = Some dir
               \<and> (\<forall>p \<in> set productFiles. files s p \<noteq> None \<and> dir p = files s p)))
     \<and> (files (snd (operation s)) \<noteq> files s \<longrightarrow>
            (\<exists>dir. backups (snd (operation s)) ts = Some dir
               \<and> (\<forall>p \<in> set productFiles. files s p \<noteq> None \<and> dir p = files s p)))"
proof -
  have g: "(\<forall>e. fst (createBackup F ts productFiles s) = Throws e \<longrightarrow>
            fst (mutateAll F ts productFiles f s) = Throws e
            \<and> files (snd (mutateAll F ts productFiles f s)) = files s)
     \<and> (\<forall>rep. fst (mutateAll F ts productFiles f s) = Returns rep \<longrightarrow>
            (\<exists>dir. backups (snd (mutateAll F ts productFiles f s)) ts = Some dir
               \<and> (\<forall>p \<in> set productFiles. files s p \<noteq> None \<and> dir p = files s p)))
     \<and> (files (snd (mutateAll F ts productFiles f s)) \<noteq> files s \<longrightarrow>
            (\<exists>dir. backups (snd (mutateAll F ts productFiles f s)) ts = Some dir
               \<and> (\<forall>p \<in> set productFiles. files s p \<noteq> None \<and> dir p = files s p)))" for f
  proof -
    let ?s' = "snd (mutateAll F ts productFiles f s)"
    have a: "fst (mutateAll F ts productFiles f s) = Throws e \<and> files ?s' = files s"
      if "fst (createBackup F ts productFiles s) = Throws e" for e
      using mutateAll_Throws [OF that] .
    have b: "\<exists>dir. backups ?s' ts = Some dir
               \<and> (\<forall>p \<in> set productFiles. files s p \<noteq> None \<and> dir p = files s p)"
      if "fst (mutateAll F ts productFiles f s) = Returns rep" for rep
    proof -
      from mutateAll_Returns [OF that] obtain t s1 where
        cb: "createBackup F ts productFiles s = (Returns t, s1)" and bk: "backups ?s' = backups s1"
        by blast
      from createBackup_Returns [OF cb] bk show ?thesis by simp
    qed
    have c: "\<exists>dir. backups ?s' ts = Some dir
               \<and> (\<forall>p \<in> set productFiles. files s p \<noteq> None \<and> dir p = files s p)"
      if ch: "files ?s' \<noteq> files s"
    proof (cases "fst (mutateAll F ts productFiles f s)")
      case (Returns rep)
      then show ?thesis by (rule b)
    next
      case (Throws e)
      then have "fst (createBackup F ts productFiles s) = Throws e"
        by (auto simp add: mutateAll_def split: prod.splits outcome.splits)
      from a [OF this] ch show ?thesis by simp
    qed
    show ?thesis using a b c by blast
  qed
  show ?thesis
    unfolding addField_def renameField_def updateField_def removeField_def
    using g by (simp only: ball_simps) blast
qed

text \<open>
  Claim C2, at the two-file store: when the backup directory cannot be made,
  \<open>removeField\<close> throws and the files are as they were; without faults it removes the
  field, and the snapshot holds the first file with the field still in it.
\<close>

theorem backup_precedes_every_write_witness:
  "fst (createBackup mkdir_broken ''t1'' [''a.json'', ''b.json''] store2) = Throws Backup_failed
   \<and> fst (removeField mkdir_broken ''t1'' [''a.json'', ''b.json''] ''price'' store2) = Throws Backup_failed
   \<and> files (snd (removeField mkdir_broken ''t1'' [''a.json'', ''b.json''] ''price'' store2)) = files store2
   \<and> files (snd (removeField no_faults ''t1'' [''a.json'', ''b.json''] ''price'' store2)) ''a.json''
       = Some (Records [[(''id'', JStr ''p1''), (''rarity'', JStr ''rare'')]])
   \<and> map_option (\<lambda>dir. dir ''a.json'')
        (backups (snd (removeField no_faults ''t1'' [''a.json'', ''b.json''] ''price'' store2)) ''t1'')
       = Some (Some (Records [[(''id'', JStr ''p1''), (''price'', JNum 100), (''rarity'', JStr ''rare'')]]))"
proof -
  have t: "fst (createBackup mkdir_broken ''t1'' [''a.json'', ''b.json''] store2) = Throws Backup_failed"
    by (simp add: createBackup_def mkdir_broken_def no_faults_def)
  have m: "removeField mkdir_broken ''t1'' [''a.json'', ''b.json''] ''price''
      \<in> {addField mkdir_broken ''t1'' [''a.json'', ''b.json''] ''price'' JNull,
         renameField mkdir_broken ''t1'' [''a.json'', ''b.json''] ''price'' ''cost'',
         updateField mkdir_broken ''t1'' [''a.json'', ''b.json''] ''price'' (\<lambda>v obj. Returns v),
         removeField mkdir_broken ''t1'' [''a.json'', ''b.json''] ''price''}" by simp
  have abort: "fst (removeField mkdir_broken ''t1'' [''a.json'', ''b.json''] ''price'' store2) = Throws Backup_failed
     \<and> files (snd (removeField mkdir_broken ''t1'' [''a.json'', ''b.json''] ''price'' store2)) = files store2"
    using backup_precedes_every_write [of mkdir_broken "''t1''" "[''a.json'', ''b.json'']" "''price''" JNull
        "''price''" "''cost''" "\<lambda>v obj. Returns v" store2] m t by blast
  have n: "removeField no_faults ''t1'' [''a.json'', ''b.json''] ''price''
      \<in> {addField no_faults ''t1'' [''a.json'', ''b.json''] ''price'' JNull,
         renameField no_faults ''t1'' [''a.json'', ''b.json''] ''price'' ''cost'',
         updateField no_faults ''t1'' [''a.json'', ''b.json''] ''price'' (\<lambda>v obj. Returns v),
         removeField no_faults ''t1'' [''a.json'', ''b.json''] ''price''}" by simp
  have fa: "files (snd (removeField no_faults ''t1'' [''a.json'', ''b.json''] ''price'' store2)) ''a.json''
       = Some (Records [[(''id'', JStr ''p1''), (''rarity'', JStr ''rare'')]])"
    by (simp add: removeField_def mutateAll_def createBackup_def processFile_def readProductFile_def
      writeProductFile_def removeField_product_def store2_def no_faults_def Let_def AList.delete_eq)
  then have ch: "files (snd (removeField no_faults ''t1'' [''a.json'', ''b.json''] ''price'' store2)) \<noteq> files store2"
    by (auto simp add: store2_def dest!: fun_cong [where x = "''a.json''"])
  have "\<exists>dir. backups (snd (removeField no_faults ''t1'' [''a.json'', ''b.json''] ''price'' store2)) ''t1'' = Some dir
         \<and> (\<forall>p \<in> set [''a.json'', ''b.json'']. files store2 p \<noteq> None \<and> dir p = files store2 p)"
    using backup_precedes_every_write [of no_faults "''t1''" "[''a.json'', ''b.json'']" "''price''" JNull
        "''price''" "''cost''" "\<lambda>v obj. Returns v" store2] n ch by blast
  then have bk: "map_option (\<lambda>dir. dir ''a.json'')
        (backups (snd (removeField no_faults ''t1'' [''a.json'', ''b.json''] ''price'' store2)) ''t1'')
       = Some (Some (Records [[(''id'', JStr ''p1''), (''price'', JNum 100), (''rarity'', JStr ''rare'')]]))"
    by (auto simp add: store2_def)
  show ?thesis using t abort fa bk by blast
qed

subsection \<open>Adding a field\<close>

lemma update_same: "map_of obj k = Some v \<Longrightarrow> AList.update k v obj = obj"
  by (induction obj) (auto split: if_splits)

lemma update_absent: "map_of obj k = None \<Longrightarrow> AList.update k v obj = obj @ [(k, v)]"
  by (induction obj) (auto split: if_splits)

lemma addField_product_Returns:
  assumes "map_of obj ''hasOwnProperty'' = None"
  shows "addField_product f d obj = Returns (if map_of obj f = None then obj @ [(f, d)] else obj)"
  using assms by (auto simp add: addField_product_def hasOwnProperty_def update_same update_absent)

lemma addField_product_cases:
  "addField_product f d obj = Throws TypeError_not_a_function \<and> map_of obj ''hasOwnProperty'' \<noteq> None
   \<or> addField_product f d obj = Returns (if map_of obj f = None then obj @ [(f, d)] else obj)
      \<and> map_of obj ''hasOwnProperty'' = None"
  by (auto simp add: addField_product_def hasOwnProperty_def update_same update_absent)

lemma addField_product_again:
  assumes "addField_product f d obj = Returns q"
  shows "addField_product f d q = Returns q \<or> (\<exists>e. addField_product f d q = Throws e)"
proof -
  from assms addField_product_cases [of f d obj]
  have q: "q = (if map_of obj f = None then obj @ [(f, d)] else obj)" by auto
  then have "map_of q f \<noteq> None" by (auto simp add: map_add_def split: if_splits)
  then show ?thesis using addField_product_cases [of f d q] by auto
qed

lemma mapProducts_again:
  assumes "\<And>obj q. f obj = Returns q \<Longrightarrow> f q = Returns q \<or> (\<exists>e. f q = Throws e)"
  shows "mapProducts f ps = Returns qs \<Longrightarrow>
         mapProducts f qs = Returns qs \<or> (\<exists>e. mapProducts f qs = Throws e)"
proof (induction ps arbitrary: qs)
  case Nil
  then show ?case by simp
next
  case (Cons p ps)
  from Cons.prems obtain q qs' where q: "f p = Returns q" and r: "mapProducts f ps = Returns qs'"
    and qs: "qs = q # qs'"
    by (auto split: outcome.splits)
  from assms [OF q] Cons.IH [OF r] show ?case
    by (auto simp add: qs split: outcome.splits)
qed

lemma shardResult_again:
  assumes "\<And>ps qs. mapProducts f ps = Returns qs \<Longrightarrow>
             mapProducts f qs = Returns qs \<or> (\<exists>e. mapProducts f qs = Throws e)"
  shows "shardResult F f p (shardResult F f p c) = shardResult F f p c"
proof (cases "p \<in> read_fails F")
  case True
  then show ?thesis by (simp add: shardResult_def)
next
  case False
  show ?thesis
  proof (cases c)
    case None
    then show ?thesis by (simp add: shardResult_def)
  next
    case (Some d)
    show ?thesis
    proof (cases d)
      case (Other t)
      then show ?thesis using Some by (simp add: shardResult_def)
    next
      case (Records ps)
      show ?thesis
      proof (cases "mapProducts f ps")
        case (Throws e)
        then show ?thesis using Some Records by (simp add: shardResult_def)
      next
        case (Returns qs)
        show ?thesis
        proof (cases "write_faults F p")
          case None
          from assms [OF Returns] show ?thesis
            using Some Records Returns None False by (auto simp add: shardResult_def)
        next
          case (Some w)
          note w = this
          show ?thesis
          proof (cases w)
            case Untouched
            then show ?thesis using \<open>c = Some d\<close> Records Returns w False
              by (simp add: shardResult_def)
          next
            case (Clobbered c')
            then show ?thesis using \<open>c = Some d\<close> Records Returns w False
              by (auto simp add: shardResult_def split: content.splits outcome.splits)
          qed
        qed
      qed
    qed
  qed
qed

lemma copyFiles_fst:
  "fst (copyFiles F fs ps dir) = (\<forall>p \<in> set ps. p \<notin> copy_fails F \<and> fs p \<noteq> None)"
  by (induction ps arbitrary: dir) (auto split: option.splits)

lemma createBackup_Throws_iff:
  "(\<exists>e. fst (createBackup F ts pf s) = Throws e) =
     (mkdir_fails F \<or> \<not> (\<forall>p \<in> set pf. p \<notin> copy_fails F \<and> files s p \<noteq> None))"
proof -
  have "fst (copyFiles F (files s) pf (case backups s ts of None \<Rightarrow> Map.empty | Some d \<Rightarrow> d))
        = (\<forall>p \<in> set pf. p \<notin> copy_fails F \<and> files s p \<noteq> None)"
    by (rule copyFiles_fst)
  then show ?thesis
    by (auto simp add: createBackup_def Let_def split: prod.splits)
qed

lemma mutateAll_files:
  "files (snd (mutateAll F ts pf f s)) =
     (if mkdir_fails F \<or> \<not> (\<forall>p \<in> set pf. p \<notin> copy_fails F \<and> files s p \<noteq> None) then files s
      else fst (forEachFile F f pf (files s, \<lparr>updated = [], failed = [], totalProducts = 0\<rparr>)))"
proof (cases "fst (mutateAll F ts pf f s)")
  case (Returns rep)
  from mutateAll_Returns [OF this] obtain t s' where
    cb: "createBackup F ts pf s = (Returns t, s')" and
    fe: "forEachFile F f pf (files s, \<lparr>updated = [], failed = [], totalProducts = 0\<rparr>)
             = (files (snd (mutateAll F ts pf f s)), rep)" by blast
  have "\<not> (\<exists>e. fst (createBackup F ts pf s) = Throws e)" using cb by simp
  then have "\<not> (mkdir_fails F \<or> \<not> (\<forall>p \<in> set pf. p \<notin> copy_fails F \<and> files s p \<noteq> None))"
    unfolding createBackup_Throws_iff .
  then show ?thesis using fe by simp
next
  case (Throws e)
  then have t: "fst (createBackup F ts pf s) = Throws e"
    by (auto simp add: mutateAll_def split: prod.splits outcome.splits)
  then have "\<exists>e. fst (createBackup F ts pf s) = Throws e" by blast
  then have "mkdir_fails F \<or> \<not> (\<forall>p \<in> set pf. p \<notin> copy_fails F \<and> files s p \<noteq> None)"
    unfolding createBackup_Throws_iff .
  then show ?thesis using mutateAll_Throws [OF t, of f] by auto
qed

lemma mapProducts_addField:
  assumes "\<forall>obj \<in> set ps. map_of obj ''hasOwnProperty'' = None"
  shows "mapProducts (addField_product f d) ps =
     Returns (map (\<lambda>obj. if map_of obj f = None then obj @ [(f, d)] else obj) ps)"
  using assms by (induction ps) (simp_all add: addField_product_Returns)

lemma mapProducts_addField_keeps:
  "mapProducts (addField_product f d) ps = Returns qs \<Longrightarrow>
   length qs = length ps \<and> (\<forall>i < length ps. map_of (ps ! i) f \<noteq> None \<longrightarrow> qs ! i = ps ! i)"
proof (induction ps arbitrary: qs)
  case Nil
  then show ?case by simp
next
  case (Cons p ps)
  from Cons.prems obtain q qs' where q: "addField_product f d p = Returns q"
    and r: "mapProducts (addField_product f d) ps = Returns qs'" and qs: "qs = q # qs'"
    by (auto split: outcome.splits)
  from q addField_product_cases [of f d p]
  have "q = (if map_of p f = None then p @ [(f, d)] else p)" by auto
  then show ?case using Cons.IH [OF r] by (auto simp add: qs nth_Cons split: nat.splits)
qed

text \<open>
  \<open>addField\<close> run twice with the same arguments, in the same environment, leaves the
  product files as one run leaves them. A file that a run reads, maps and writes holds,
  for each record, the record itself when it has the field and the record with the field
  set to the default value at its end when it lacks it, provided that no record of the
  file has an own property \<open>hasOwnProperty\<close>. Whatever happens to a file, short of a
  failed write that leaves other content behind, a record that has the field is the same
  record afterwards.
\<close>

lemma addField_idempotent_keeps_existing:
  "let s1 = snd (addField F ts1 productFiles fieldName defaultValue s);
       s2 = snd (addField F ts2 productFiles fieldName defaultValue s1)
   in files s2 = files s1
    \<and> (\<forall>p ps rep. p \<in> set productFiles
          \<and> fst (addField F ts1 productFiles fieldName defaultValue s) = Returns rep
          \<and> p \<notin> read_fails F \<and> write_faults F p = None \<and> files s p = Some (Records ps)
          \<and> (\<forall>obj \<in> set ps. map_of obj ''hasOwnProperty'' = None)
          \<longrightarrow> files s1 p = Some (Records
                (map (\<lambda>obj. if map_of obj fieldName = None then obj @ [(fieldName, defaultValue)] else obj) ps)))
    \<and> (\<forall>p ps. files s p = Some (Records ps) \<and> (\<forall>c. write_faults F p \<noteq> Some (Clobbered c))
          \<longrightarrow> (\<exists>qs. files s1 p = Some (Records qs) \<and> length qs = length ps
                 \<and> (\<forall>i < length ps. map_of (ps ! i) fieldName \<noteq> None \<longrightarrow> qs ! i = ps ! i)))"
proof -
  let ?f = "addField_product fieldName defaultValue"
  let ?r0 = "\<lparr>updated = [], failed = [], totalProducts = 0\<rparr>"
  define s1 where "s1 = snd (addField F ts1 productFiles fieldName defaultValue s)"
  define s2 where "s2 = snd (addField F ts2 productFiles fieldName defaultValue s1)"
  define G where "G = (\<lambda>fs q. if q \<in> set productFiles then shardResult F ?f q (fs q) else fs q)"
  define bad where "bad = (\<lambda>fs :: string \<rightharpoonup> content. mkdir_fails F \<or> \<not> (\<forall>p \<in> set productFiles. p \<notin> copy_fails F \<and> fs p \<noteq> None))"
  have again: "shardResult F ?f p (shardResult F ?f p c) = shardResult F ?f p c" for p c
    by (rule shardResult_again) (rule mapProducts_again, rule addField_product_again)
  have fe: "fst (forEachFile F ?f productFiles (fs, ?r0)) = G fs" for fs
    unfolding G_def by (rule forEachFile_idem) (rule again)
  have f1: "files s1 = (if bad (files s) then files s else G (files s))"
    unfolding s1_def addField_def bad_def mutateAll_files fe ..
  have f2: "files s2 = (if bad (files s1) then files s1 else G (files s1))"
    unfolding s2_def addField_def bad_def mutateAll_files fe ..
  have GG: "G (G fs) = G fs" for fs by (rule ext) (simp add: G_def again)
  have idem: "files s2 = files s1"
  proof (cases "bad (files s)")
    case True
    then show ?thesis using f1 f2 by simp
  next
    case False
    then show ?thesis using f1 f2 GG by simp
  qed
  have upd: "files s1 p = Some (Records
                (map (\<lambda>obj. if map_of obj fieldName = None then obj @ [(fieldName, defaultValue)] else obj) ps))"
    if "p \<in> set productFiles" "fst (addField F ts1 productFiles fieldName defaultValue s) = Returns rep"
      "p \<notin> read_fails F" "write_faults F p = None" "files s p = Some (Records ps)"
      "\<forall>obj \<in> set ps. map_of obj ''hasOwnProperty'' = None" for p ps rep
  proof -
    have "\<not> (\<exists>e. fst (createBackup F ts1 productFiles s) = Throws e)"
      using that(2) by (auto simp add: addField_def mutateAll_def split: prod.splits outcome.splits)
    then have "\<not> bad (files s)" unfolding createBackup_Throws_iff bad_def .
    then have "files s1 p = shardResult F ?f p (files s p)" using f1 that(1) by (simp add: G_def)
    then show ?thesis using that(3,4,5) mapProducts_addField [OF that(6)]
      by (simp add: shardResult_def)
  qed
  have keep: "\<exists>qs. files s1 p = Some (Records qs) \<and> length qs = length ps
                 \<and> (\<forall>i < length ps. map_of (ps ! i) fieldName \<noteq> None \<longrightarrow> qs ! i = ps ! i)"
    if "files s p = Some (Records ps)" "\<forall>c. write_faults F p \<noteq> Some (Clobbered c)" for p ps
  proof -
    have "files s1 p = files s p \<or> files s1 p = shardResult F ?f p (files s p)"
      using f1 by (auto simp add: G_def)
    moreover have "shardResult F ?f p (files s p) = files s p
        \<or> (\<exists>qs. mapProducts ?f ps = Returns qs \<and> shardResult F ?f p (files s p) = Some (Records qs))"
      using that by (auto simp add: shardResult_def split: outcome.splits option.splits wfault.splits)
    ultimately show ?thesis using that(1) mapProducts_addField_keeps [of fieldName defaultValue ps]
      by auto
  qed
  show ?thesis
    unfolding Let_def s1_def [symmetric] s2_def [symmetric]
    using idem upd keep by blast
qed

text \<open>
  Claim C6 says that \<open>addField\<close> sets the field on every record that lacks it. When a
  record of a file has an own property \<open>hasOwnProperty\<close>, the call
  \<open>product.hasOwnProperty(fieldName)\<close> of line 326 finds the value of that property
  instead of the method and throws; the \<open>catch\<close> of the callback reports the file as
  failed and the file is not written. In \<open>shadowStore\<close> the first record of
  \<open>a.json\<close> lacks the field \<open>tag\<close>; after \<open>addField\<close> of \<open>tag\<close> it still lacks
  it. \<open>addField_idempotent_keeps_existing\<close> above shows what holds of every store:
  the second run changes nothing, and a record that has the field keeps its value.
\<close>

theorem addField_fails_on_hasOwnProperty:
  "files shadowStore ''a.json''
       = Some (Records [[(''id'', JStr ''p1'')], [(''id'', JStr ''p2''), (''hasOwnProperty'', JNum 1)]])
   \<and> map_of [(''id'', JStr ''p1'')] ''tag'' = None
   \<and> fst (addField no_faults ''t1'' [''a.json''] ''tag'' (JStr ''new'') shadowStore)
       = Returns \<lparr>updated = [], failed = [''a.json''], totalProducts = 0\<rparr>
   \<and> files (snd (addField no_faults ''t1'' [''a.json''] ''tag'' (JStr ''new'') shadowStore)) ''a.json''
       = Some (Records [[(''id'', JStr ''p1'')], [(''id'', JStr ''p2''), (''hasOwnProperty'', JNum 1)]])"
  by (simp add: addField_def mutateAll_def createBackup_def processFile_def readProductFile_def
      writeProductFile_def addField_product_def hasOwnProperty_def shadowStore_def no_faults_def
      Let_def)


subsection \<open>Renaming a field and renaming it back\<close>

lemma rename_there_and_back:
  assumes n: "map_of obj new = None" and h: "map_of obj ''hasOwnProperty'' = None"
    and ne: "new \<noteq> ''hasOwnProperty''"
  shows "\<exists>o1 o2. renameField_product old new obj = Returns o1
           \<and> renameField_product new old o1 = Returns o2 \<and> map_of o2 = map_of obj"
proof (cases "map_of obj old")
  case None
  then show ?thesis using n h
    by (simp add: renameField_product_def hasOwnProperty_def)
next
  case (Some v)
  define o1 where "o1 = AList.update new v (AList.delete old obj)"
  define o2 where "o2 = AList.update old v (AList.delete new o1)"
  have on: "old \<noteq> new" using Some n by auto
  have m1: "map_of o1 = (map_of obj)(old := None, new \<mapsto> v)"
    by (simp add: o1_def update_conv' delete_conv')
  have r1: "renameField_product old new obj = Returns o1"
    using Some h by (simp add: renameField_product_def hasOwnProperty_def o1_def)
  have h1: "map_of o1 ''hasOwnProperty'' = None" using h ne by (simp add: m1)
  have r2: "renameField_product new old o1 = Returns o2"
    using h1 by (simp add: renameField_product_def hasOwnProperty_def o2_def m1)
  have "map_of o2 = (map_of obj)(old := None, new \<mapsto> v, new := None, old \<mapsto> v)"
    by (simp add: o2_def update_conv' delete_conv' m1)
  also have "\<dots> = map_of obj" using Some n on by (auto simp add: fun_eq_iff)
  finally show ?thesis using r1 r2 by blast
qed

lemma mapProducts_there_and_back:
  assumes ne: "new \<noteq> ''hasOwnProperty''"
  shows "\<forall>obj \<in> set ps. map_of obj new = None \<and> map_of obj ''hasOwnProperty'' = None \<Longrightarrow>
     \<exists>qs rs. mapProducts (renameField_product old new) ps = Returns qs
        \<and> mapProducts (renameField_product new old) qs = Returns rs
        \<and> map map_of rs = map map_of ps"
proof (induction ps)
  case Nil
  then show ?case by simp
next
  case (Cons p ps)
  then obtain qs rs where ih: "mapProducts (renameField_product old new) ps = Returns qs"
      "mapProducts (renameField_product new old) qs = Returns rs" "map map_of rs = map map_of ps"
    by auto
  from Cons.prems have "map_of p new = None" "map_of p ''hasOwnProperty'' = None" by simp_all
  from rename_there_and_back [OF this ne, of old] obtain o1 o2 where
    "renameField_product old new p = Returns o1" "renameField_product new old o1 = Returns o2"
    "map_of o2 = map_of p" by blast
  then show ?case using ih by simp
qed

lemma shardResult_None: "(shardResult F f p c = None) = (c = None)"
  by (auto simp add: shardResult_def split: option.splits content.splits outcome.splits wfault.splits)

text \<open>
  Renaming a field and renaming it back, without faults, restores the properties of every
  record of every product file, provided the new name is not \<open>hasOwnProperty\<close> and no
  record of the files has the new name or an own property \<open>hasOwnProperty\<close>. (The
  property moves to the end of the record.)
\<close>

lemma renameField_round_trip:
  assumes d: "distinct pf" and ne: "new \<noteq> ''hasOwnProperty''"
    and ok: "\<forall>p \<in> set pf. \<forall>ps. files s p = Some (Records ps) \<longrightarrow>
              (\<forall>obj \<in> set ps. map_of obj new = None \<and> map_of obj ''hasOwnProperty'' = None)"
  shows "let s1 = snd (renameField no_faults ts1 pf old new s);
             s2 = snd (renameField no_faults ts2 pf new old s1)
         in \<forall>p. case files s p of
                   Some (Records ps) \<Rightarrow>
                     (\<exists>rs. files s2 p = Some (Records rs) \<and> map map_of rs = map map_of ps)
                 | Some (Other t) \<Rightarrow> files s2 p = Some (Other t)
                 | None \<Rightarrow> files s2 p = None"
proof -
  let ?f1 = "renameField_product old new"
  let ?f2 = "renameField_product new old"
  let ?r0 = "\<lparr>updated = [], failed = [], totalProducts = 0\<rparr>"
  define s1 where "s1 = snd (renameField no_faults ts1 pf old new s)"
  define s2 where "s2 = snd (renameField no_faults ts2 pf new old s1)"
  define G where "G = (\<lambda>f (fs :: string \<rightharpoonup> content) q.
      if q \<in> set pf then shardResult no_faults f q (fs q) else fs q)"
  define bad where "bad = (\<lambda>fs :: string \<rightharpoonup> content.
      mkdir_fails no_faults \<or> \<not> (\<forall>p \<in> set pf. p \<notin> copy_fails no_faults \<and> fs p \<noteq> None))"
  have fe: "fst (forEachFile no_faults f pf (fs, ?r0)) = G f fs" for f fs
    unfolding G_def by (rule forEachFile_distinct [OF d])
  have f1: "files s1 = (if bad (files s) then files s else G ?f1 (files s))"
    unfolding s1_def renameField_def bad_def mutateAll_files fe ..
  have f2: "files s2 = (if bad (files s1) then files s1 else G ?f2 (files s1))"
    unfolding s2_def renameField_def bad_def mutateAll_files fe ..
  have bG: "bad (G f fs) = bad fs" for f fs
    by (auto simp add: bad_def G_def shardResult_None)
  have same: "case files s p of
                   Some (Records ps) \<Rightarrow>
                     (\<exists>rs. files s2 p = Some (Records rs) \<and> map map_of rs = map map_of ps)
                 | Some (Other t) \<Rightarrow> files s2 p = Some (Other t)
                 | None \<Rightarrow> files s2 p = None" for p
  proof (cases "bad (files s)")
    case True
    then have "files s2 = files s" using f1 f2 by simp
    then show ?thesis by (auto split: option.splits content.splits)
  next
    case False
    then have e: "files s2 = G ?f2 (G ?f1 (files s))" using f1 f2 bG by simp
    show ?thesis
    proof (cases "p \<in> set pf")
      case False
      then show ?thesis by (auto simp add: e G_def split: option.splits content.splits)
    next
      case True
      show ?thesis
      proof (cases "files s p")
        case None
        then show ?thesis using True by (simp add: e G_def shardResult_def no_faults_def)
      next
        case (Some c)
        show ?thesis
        proof (cases c)
          case (Other t)
          then show ?thesis using True Some by (simp add: e G_def shardResult_def no_faults_def)
        next
          case (Records ps)
          then have "\<forall>obj \<in> set ps. map_of obj new = None \<and> map_of obj ''hasOwnProperty'' = None"
            using ok True Some by blast
          from mapProducts_there_and_back [OF ne this, of old] obtain qs rs where
            "mapProducts ?f1 ps = Returns qs" "mapProducts ?f2 qs = Returns rs"
            "map map_of rs = map map_of ps" by blast
          then show ?thesis using True Some Records
            by (simp add: e G_def shardResult_def no_faults_def)
        qed
      qed
    qed
  qed
  show ?thesis unfolding Let_def s1_def [symmetric] s2_def [symmetric] using same by blast
qed

text \<open>
  Claim C7 says that renaming a field to a name that no record has and renaming it back
  restores every record. When the new name is \<open>hasOwnProperty\<close>, the first run gives
  the record an own property of that name, and in the second run the call
  \<open>product.hasOwnProperty(...)\<close> throws: the file is reported as failed and keeps the
  new name. \<open>renameField_round_trip\<close> above shows that the round trip restores every
  record for every other new name, when no record has an own property
  \<open>hasOwnProperty\<close>.
\<close>

theorem renameField_back_fails_on_hasOwnProperty:
  "files renameStore ''a.json'' = Some (Records [[(''id'', JStr ''p1''), (''nameEn'', JStr ''Luck'')]])
   \<and> map_of [(''id'', JStr ''p1''), (''nameEn'', JStr ''Luck'')] ''hasOwnProperty'' = None
   \<and> files (snd (renameField no_faults ''t1'' [''a.json''] ''nameEn'' ''hasOwnProperty'' renameStore)) ''a.json''
       = Some (Records [[(''id'', JStr ''p1''), (''hasOwnProperty'', JStr ''Luck'')]])
   \<and> fst (renameField no_faults ''t2'' [''a.json''] ''hasOwnProperty'' ''nameEn''
            (snd (renameField no_faults ''t1'' [''a.json''] ''nameEn'' ''hasOwnProperty'' renameStore)))
       = Returns \<lparr>updated = [], failed = [''a.json''], totalProducts = 0\<rparr>
   \<and> files (snd (renameField no_faults ''t2'' [''a.json''] ''hasOwnProperty'' ''nameEn''
            (snd (renameField no_faults ''t1'' [''a.json''] ''nameEn'' ''hasOwnProperty'' renameStore)))) ''a.json''
       = Some (Records [[(''id'', JStr ''p1''), (''hasOwnProperty'', JStr ''Luck'')]])"
  by (simp add: renameField_def mutateAll_def createBackup_def processFile_def readProductFile_def
      writeProductFile_def renameField_product_def hasOwnProperty_def renameStore_def no_faults_def
      Let_def AList.delete_eq)

section \<open>Properties of the catalog loader\<close>

subsection \<open>A shard that does not load\<close>

text \<open>
  Claim C9. When the index loads, \<open>performLoad\<close> returns, whatever the shards do: the
  result is the concatenation, in index order, of the shards that load, the shards that
  do not load contribute nothing and are the ones warned about, and every record of every
  shard that loads is in the result.
\<close>

theorem load_skips_failed_shard:
  "fst (performLoad (Some index) modules)
     = Returns (concat (map (\<lambda>i. the (modules (fileName i)))
                  (filter (\<lambda>i. modules (fileName i) \<noteq> None) (seriesList index))))
   \<and> snd (performLoad (Some index) modules)
     = map seriesKey (filter (\<lambda>i. modules (fileName i) = None) (seriesList index))
   \<and> (\<forall>i \<in> set (seriesList index). \<forall>ps. modules (fileName i) = Some ps \<longrightarrow>
         (\<exists>all. fst (performLoad (Some index) modules) = Returns all \<and> set ps \<subseteq> set all))"
proof -
  have c: "concat (map (\<lambda>i. case modules (fileName i) of Some ps \<Rightarrow> ps | None \<Rightarrow> []) xs)
      = concat (map (\<lambda>i. the (modules (fileName i))) (filter (\<lambda>i. modules (fileName i) \<noteq> None) xs))"
    for xs :: "seriesInfo list"
    by (induction xs) auto
  have a: "fst (performLoad (Some index) modules)
     = Returns (concat (map (\<lambda>i. the (modules (fileName i)))
                  (filter (\<lambda>i. modules (fileName i) \<noteq> None) (seriesList index))))"
    by (simp add: performLoad_def Let_def c)
  have b: "snd (performLoad (Some index) modules)
     = map seriesKey (filter (\<lambda>i. modules (fileName i) = None) (seriesList index))"
    by (simp add: performLoad_def Let_def)
  have d: "\<exists>all. fst (performLoad (Some index) modules) = Returns all \<and> set ps \<subseteq> set all"
    if "i \<in> set (seriesList index)" "modules (fileName i) = Some ps" for i ps
    using that by (auto simp add: a intro!: bexI [of _ i])
  show ?thesis using a b d by blast
qed

text \<open>
  Claim C9, at the index of three series of which the second does not load: the result
  holds the products of the first and the third, and the warning names the second.
\<close>

theorem load_skips_failed_shard_witness:
  "performLoad (Some index2) modules2
     = (Returns [[(''id'', JStr ''p1'')], [(''id'', JStr ''p2'')]], [''broken''])"
proof -
  have "fst (performLoad (Some index2) modules2)
      = Returns (concat (map (\<lambda>i. the (modules2 (fileName i)))
                  (filter (\<lambda>i. modules2 (fileName i) \<noteq> None) (seriesList index2))))
     \<and> snd (performLoad (Some index2) modules2)
      = map seriesKey (filter (\<lambda>i. modules2 (fileName i) = None) (seriesList index2))"
    using load_skips_failed_shard [of index2 modules2] by blast
  then have "fst (performLoad (Some index2) modules2) = Returns [[(''id'', JStr ''p1'')], [(''id'', JStr ''p2'')]]
     \<and> snd (performLoad (Some index2) modules2) = [''broken'']"
    by (simp add: index2_def modules2_def)
  then show ?thesis by (simp add: prod_eq_iff)
qed

subsection \<open>Calls that arrive while a load is in flight\<close>

lemma calls_in_flight:
  "allProducts st = None \<Longrightarrow> loadPromise st = Some p \<Longrightarrow>
   runEvents (map Call cs) st = st\<lparr>answers := answers st @ map (\<lambda>c. (c, Adopts p)) cs\<rparr>"
  by (induction cs arbitrary: st) (simp_all add: loadAllProducts_call_def)

lemma calls_cached:
  "allProducts st = Some ps \<Longrightarrow>
   runEvents (map Call cs) st = st\<lparr>answers := answers st @ map (\<lambda>c. (c, Value ps)) cs\<rparr>"
  by (induction cs arbitrary: st) (simp_all add: loadAllProducts_call_def)

lemma runEvents_append: "runEvents (es @ fs) st = runEvents fs (runEvents es st)"
  by (induction es arbitrary: st) simp_all

lemma map_of_tagged: "map_of (map (\<lambda>c. (c, v)) cs) x = (if x \<in> set cs then Some v else None)"
  by (induction cs) auto

text \<open>
  Claim C3. Callers are told apart by a number. Let \<open>c\<close> call first, then the callers
  \<open>cs\<close> before the load has finished; let the promise of \<open>performLoad\<close> then settle
  with the merged collection, the callers \<open>ds\<close> call before the continuation of
  \<open>c\<close> has run, the continuation run, and the callers \<open>es\<close> call after it. For every
  index that loads: \<open>performLoad\<close> has been invoked once when the first calls wait, and
  none of them has a result yet; it has still been invoked once at the end; every caller
  has received the merged collection; the collection is cached, \<open>loadPromise\<close> is
  cleared, and the calls after the load have not touched the promises.
\<close>

theorem concurrent_loads_share_one_load:
  assumes "distinct (c # cs @ ds @ es)"
  shows "let loaded = fst (performLoad (Some index) modules);
             st1 = runEvents (map Call (c # cs)) initialLoader;
             st2 = runEvents (Settle 0 loaded # map Call ds @ [Resume c]) st1;
             st3 = runEvents (map Call es) st2
         in length (promises st1) = 1 \<and> loadPromise st1 = Some 0
          \<and> (\<forall>x \<in> set (c # cs). received st1 x = None)
          \<and> length (promises st3) = 1
          \<and> (\<forall>x \<in> set (c # cs @ ds @ es). received st3 x = Some loaded)
          \<and> (\<exists>ps. loaded = Returns ps \<and> allProducts st2 = Some ps \<and> allProducts st3 = Some ps)
          \<and> loadPromise st2 = None \<and> promises st3 = promises st2"
proof -
  define loaded where "loaded = fst (performLoad (Some index) modules)"
  obtain ps where ld: "loaded = Returns ps"
    by (simp add: loaded_def performLoad_def Let_def)
  define st0 where "st0 = loaderStep (Call c) initialLoader"
  define st1 where "st1 = runEvents (map Call (c # cs)) initialLoader"
  define sa where "sa = loaderStep (Settle 0 loaded) st1"
  define sb where "sb = runEvents (map Call ds) sa"
  define st2 where "st2 = runEvents (Settle 0 loaded # map Call ds @ [Resume c]) st1"
  define st3 where "st3 = runEvents (map Call es) st2"
  have s0: "st0 = \<lparr>allProducts = None, loadPromise = Some 0, promises = [Pending],
                  awaiting = [(c, 0)], answers = []\<rparr>"
    by (simp add: st0_def initialLoader_def loadAllProducts_call_def)
  have s1: "st1 = \<lparr>allProducts = None, loadPromise = Some 0, promises = [Pending],
                  awaiting = [(c, 0)], answers = map (\<lambda>x. (x, Adopts 0)) cs\<rparr>"
  proof -
    have "st1 = runEvents (map Call cs) st0" by (simp add: st1_def st0_def)
    also have "\<dots> = st0\<lparr>answers := answers st0 @ map (\<lambda>c. (c, Adopts 0)) cs\<rparr>"
      by (rule calls_in_flight) (simp_all add: s0)
    finally show ?thesis by (simp add: s0)
  qed
  have sa: "sa = \<lparr>allProducts = None, loadPromise = Some 0, promises = [Fulfilled ps],
                  awaiting = [(c, 0)], answers = map (\<lambda>x. (x, Adopts 0)) cs\<rparr>"
    by (simp add: sa_def s1 settle_def ld)
  have sb: "sb = \<lparr>allProducts = None, loadPromise = Some 0, promises = [Fulfilled ps],
                  awaiting = [(c, 0)], answers = map (\<lambda>x. (x, Adopts 0)) (cs @ ds)\<rparr>"
    using calls_in_flight [of sa 0 ds] by (simp add: sb_def sa)
  have "st2 = loaderStep (Resume c) sb"
    by (simp add: st2_def sb_def sa_def runEvents_append)
  then have s2: "st2 = \<lparr>allProducts = Some ps, loadPromise = None, promises = [Fulfilled ps],
                  awaiting = [], answers = map (\<lambda>x. (x, Adopts 0)) (cs @ ds) @ [(c, Value ps)]\<rparr>"
    by (simp add: sb loadAllProducts_resume_def)
  have s3: "st3 = \<lparr>allProducts = Some ps, loadPromise = None, promises = [Fulfilled ps],
                  awaiting = [], answers = map (\<lambda>x. (x, Adopts 0)) (cs @ ds) @ [(c, Value ps)]
                    @ map (\<lambda>x. (x, Value ps)) es\<rparr>"
    using calls_cached [of st2 ps es] by (simp add: st3_def s2)
  have r1: "received st1 x = None" if "x \<in> set (c # cs)" for x
    using that assms by (auto simp add: received_def s1 map_of_tagged)
  have r3: "received st3 x = Some loaded" if "x \<in> set (c # cs @ ds @ es)" for x
  proof -
    have "map_of (answers st3) x =
       (if x \<in> set (cs @ ds) then Some (Adopts 0) else Some (Value ps))"
      using that assms
      by (auto simp add: s3 map_add_def map_of_tagged split: option.splits)
    then show ?thesis by (simp add: received_def s3 ld)
  qed
  have c: "\<exists>ps. loaded = Returns ps \<and> allProducts st2 = Some ps \<and> allProducts st3 = Some ps"
    using ld by (simp add: s2 s3)
  show ?thesis
    unfolding Let_def loaded_def [symmetric] st1_def [symmetric] st2_def [symmetric] st3_def [symmetric]
    using r1 r3 c by (simp add: s1 s2 s3)
qed

text \<open>
  Claim C3, at three calls before the load settles, one before the continuation runs and
  one after: one invocation of \<open>performLoad\<close>, and the callers 3 and 5 have both received
  the two products that load.
\<close>

theorem concurrent_loads_share_one_load_witness:
  "distinct (1 # [2, 3] @ [4] @ [5 :: nat])
   \<and> length (promises (runEvents (map Call [5])
        (runEvents (Settle 0 (fst (performLoad (Some index2) modules2)) # map Call [4] @ [Resume 1])
          (runEvents (map Call (1 # [2, 3])) initialLoader)))) = 1
   \<and> received (runEvents (map Call [5])
        (runEvents (Settle 0 (fst (performLoad (Some index2) modules2)) # map Call [4] @ [Resume 1])
          (runEvents (map Call (1 # [2, 3])) initialLoader))) 3
      = Some (Returns [[(''id'', JStr ''p1'')], [(''id'', JStr ''p2'')]])
   \<and> received (runEvents (map Call [5])
        (runEvents (Settle 0 (fst (performLoad (Some index2) modules2)) # map Call [4] @ [Resume 1])
          (runEvents (map Call (1 # [2, 3])) initialLoader))) 5
      = Some (Returns [[(''id'', JStr ''p1'')], [(''id'', JStr ''p2'')]])"
proof -
  have d: "distinct (1 # [2, 3] @ [4] @ [5 :: nat])" by simp
  have l: "fst (performLoad (Some index2) modules2)
      = Returns [[(''id'', JStr ''p1'')], [(''id'', JStr ''p2'')]]"
    by (simp add: performLoad_def index2_def modules2_def)
  note t = concurrent_loads_share_one_load [OF d, of index2 modules2, unfolded Let_def]
  have m: "(3::nat) \<in> set (1 # [2, 3] @ [4] @ [5])" "(5::nat) \<in> set (1 # [2, 3] @ [4] @ [5])"
    by simp_all
  from t have len: "length (promises (runEvents (map Call [5])
        (runEvents (Settle 0 (fst (performLoad (Some index2) modules2)) # map Call [4] @ [Resume 1])
          (runEvents (map Call (1 # [2, 3])) initialLoader)))) = 1"
    by blast
  from t m have r3: "received (runEvents (map Call [5])
        (runEvents (Settle 0 (fst (performLoad (Some index2) modules2)) # map Call [4] @ [Resume 1])
          (runEvents (map Call (1 # [2, 3])) initialLoader))) 3
      = Some (fst (performLoad (Some index2) modules2))"
    and r5: "received (runEvents (map Call [5])
        (runEvents (Settle 0 (fst (performLoad (Some index2) modules2)) # map Call [4] @ [Resume 1])
          (runEvents (map Call (1 # [2, 3])) initialLoader))) 5
      = Some (fst (performLoad (Some index2) modules2))"
    by blast+
  show ?thesis
    unfolding l using d len [unfolded l] r3 [unfolded l] r5 [unfolded l] by blast
qed

end
